theory Spec2Isabelle
  imports Main "HOL-Library.Word" "HOL-Library.Signed_Division"
begin

unbundle bit_operations_syntax

section \<open>Time arithmetic on \<open>struct timespec\<close>\<close>

text \<open>
  \<open>tv_sec\<close> (\<open>time_t\<close>) and \<open>tv_nsec\<close> (\<open>long\<close>) are signed 64-bit integers.
  Signed overflow is undefined in C++, so the fields are modelled as unbounded
  \<open>int\<close>: the model describes every execution in which the intermediate values
  stay representable. Signed division truncates towards zero (\<open>sdiv\<close>).
  \<open>size_t\<close> is \<open>64 word\<close>, whose arithmetic wraps as the unsigned type does.
\<close>

record timespec =
  tv_sec :: int
  tv_nsec :: int

definition timespec_is_a_after_b :: "timespec \<Rightarrow> timespec \<Rightarrow> bool" where
  "timespec_is_a_after_b pA pB =
     (let iIsAfter = (tv_sec pA > tv_sec pB) in
      if \<not> iIsAfter \<and> tv_sec pA = tv_sec pB
      then tv_nsec pA > tv_nsec pB
      else iIsAfter)"

definition timespec_a_sub_b :: "timespec \<Rightarrow> timespec \<Rightarrow> timespec" where
  "timespec_a_sub_b pA pB =
     (let sec = tv_sec pA - tv_sec pB in
      if tv_nsec pA \<ge> tv_nsec pB
      then \<lparr>tv_sec = sec, tv_nsec = tv_nsec pA - tv_nsec pB\<rparr>
      else \<lparr>tv_sec = sec - 1, tv_nsec = (1000000000 - tv_nsec pB) + tv_nsec pA\<rparr>)"

text \<open>
  \<open>timespec_a_sub_b_ms\<close> returns \<open>size_t\<close>: each of the two terms is cast to
  \<open>size_t\<close> (\<open>word_of_int\<close>, which wraps a negative value) and the sum is unsigned.
\<close>

definition timespec_a_sub_b_ms :: "timespec \<Rightarrow> timespec \<Rightarrow> 64 word" where
  "timespec_a_sub_b_ms pA pB =
     (let tsDiff = timespec_a_sub_b pA pB;
          lMs = word_of_int (tv_sec tsDiff * 1000)
      in lMs + word_of_int (tv_nsec tsDiff sdiv 1000000))"

definition timespec_add_ms :: "timespec \<Rightarrow> 64 word \<Rightarrow> timespec" where
  "timespec_add_ms pTs ulMs =
     (let sec = tv_sec pTs + sint (ulMs div 1000);
          ulMs' = ulMs - (ulMs div 1000) * 1000;
          lNs = sint (ulMs' * 1000000);
          nsec = tv_nsec pTs + lNs
      in if nsec > 1000000000
         then \<lparr>tv_sec = sec + 1, tv_nsec = nsec - 1000000000\<rparr>
         else \<lparr>tv_sec = sec, tv_nsec = nsec\<rparr>)"

text \<open>
  \<open>timespec_realtime_to_monotonic\<close> reads both clocks; the two readings are the
  arguments \<open>stMT\<close> and \<open>stRT\<close>.
\<close>

definition timespec_realtime_to_monotonic :: "timespec \<Rightarrow> timespec \<Rightarrow> timespec \<Rightarrow> timespec" where
  "timespec_realtime_to_monotonic pTs stMT stRT =
     (if timespec_is_a_after_b stMT stRT
      then let stDiff = timespec_a_sub_b stMT stRT;
               sec = tv_sec pTs + tv_sec stDiff;
               nsec = tv_nsec pTs + tv_nsec stDiff
           in if nsec > 1000000000
              then \<lparr>tv_sec = sec + 1, tv_nsec = nsec - 1000000000\<rparr>
              else \<lparr>tv_sec = sec, tv_nsec = nsec\<rparr>
      else let stDiff = timespec_a_sub_b stRT stMT;
               nsec = tv_nsec pTs - tv_nsec stDiff
           in if nsec < 0
              then \<lparr>tv_sec = tv_sec pTs - 1 - tv_sec stDiff, tv_nsec = 1000000000 + nsec\<rparr>
              else \<lparr>tv_sec = tv_sec pTs - tv_sec stDiff, tv_nsec = nsec\<rparr>)"

text \<open>The value of a timespec in nanoseconds.\<close>

definition timespec_ns :: "timespec \<Rightarrow> int" where
  "timespec_ns ts = tv_sec ts * 1000000000 + tv_nsec ts"

definition timespec_normalized :: "timespec \<Rightarrow> bool" where
  "timespec_normalized ts = (0 \<le> tv_nsec ts \<and> tv_nsec ts < 1000000000)"

section \<open>The timer pool\<close>

text \<open>
  A \<open>putimer_tmr_t*\<close> always points into the static array \<open>pTimerList\<close>, so a
  pointer is the index of its slot and \<open>None\<close> is \<open>nullptr\<close>. The pool and the id
  bitmap are stores from index to value; every place where the source indexes them
  with a computed index carries the bound of the array (\<open>OutOfBounds\<close> beyond it).
  A callback is an opaque function reference, a cookie an opaque address.
\<close>

datatype putimer_type_t = PUTIMER_TYPE_SINGLESHOT | PUTIMER_TYPE_PERIODIC | PUTIMER_TYPE_UNDEF

datatype putimer_state_t = PUTIMER_STATE_IDLE | PUTIMER_STATE_WAITING | PUTIMER_STATE_FIRED

record putimer_tmr_t =
  usID :: "16 word"
  usTag :: "16 word"
  pFct :: "nat option"
  uiPeriodMs :: "64 word"
  tsEnd :: timespec
  enType :: putimer_type_t
  enState :: putimer_state_t
  iUseAbsTime :: bool
  pCookie :: "64 word"
  bLockable :: bool
  pNext :: "nat option"

record putimer_module =
  pQueue :: "nat option"
  iIsInit :: bool
  iKillThread :: bool
  pTimerId :: "nat \<Rightarrow> 32 word"
  usRollingTag :: "16 word"
  uiAllocatedTimers :: "64 word"
  pTimerList :: "nat \<Rightarrow> putimer_tmr_t"

text \<open>
  How a call can end without returning: a failed \<open>ASSERT\<close> (debug builds only; with
  \<open>NDEBUG\<close> the macros \<open>ASSERT\<close>, \<open>WARN\<close> and \<open>LOG_ERROR\<close> expand to nothing),
  an access outside an array, a call through a null function pointer, a loop that
  never ends. Every function that contains an \<open>ASSERT\<close> takes the build as its
  first argument: \<open>True\<close> for a debug build.
\<close>

datatype fault = AssertFailed | OutOfBounds | NullCall | Diverges

definition PUTIMER_RES_UNITS :: nat where "PUTIMER_RES_UNITS = 32"
definition PUTIMER_RES_MULTIPLIER :: nat where "PUTIMER_RES_MULTIPLIER = 4"
definition PUTIMER_MAX_RESOURCES :: nat where
  "PUTIMER_MAX_RESOURCES = PUTIMER_RES_UNITS * PUTIMER_RES_MULTIPLIER"
definition PUTIMER_MIN_TIMEOUT :: "64 word" where "PUTIMER_MIN_TIMEOUT = 10"

definition PUTIMER_HND_CREATE :: "16 word \<Rightarrow> 16 word \<Rightarrow> 64 word" where
  "PUTIMER_HND_CREATE idx tag = push_bit 16 (ucast idx) + ucast tag"

definition PUTIMER_HND_GET_IDX :: "64 word \<Rightarrow> 16 word" where
  "PUTIMER_HND_GET_IDX hnd = ucast (drop_bit 16 hnd)"

definition PUTIMER_HND_GET_TAG :: "64 word \<Rightarrow> 16 word" where
  "PUTIMER_HND_GET_TAG hnd = ucast (hnd AND 0x000ffff)"

text \<open>The slot and the module as \<open>memset\<close> and static initialisation leave them.\<close>

definition zero_tmr :: putimer_tmr_t where
  "zero_tmr = \<lparr>usID = 0, usTag = 0, pFct = None, uiPeriodMs = 0,
     tsEnd = \<lparr>tv_sec = 0, tv_nsec = 0\<rparr>, enType = PUTIMER_TYPE_SINGLESHOT,
     enState = PUTIMER_STATE_IDLE, iUseAbsTime = False, pCookie = 0,
     bLockable = False, pNext = None\<rparr>"

definition static_module :: putimer_module where
  "static_module = \<lparr>pQueue = None, iIsInit = False, iKillThread = False,
     pTimerId = (\<lambda>_. 0), usRollingTag = 0, uiAllocatedTimers = 0,
     pTimerList = (\<lambda>_. zero_tmr)\<rparr>"

subsection \<open>The id bitmap\<close>

function alloc_id_bit :: "32 word \<Rightarrow> nat \<Rightarrow> 32 word \<Rightarrow> (nat \<times> 32 word) option" where
  "alloc_id_bit w j uiMask =
     (if j < 32
      then (if w AND uiMask = 0 then Some (j, uiMask)
            else alloc_id_bit w (j + 1) (push_bit 1 uiMask))
      else None)"
  by pat_completeness auto
termination
  by (relation "measure (\<lambda>(w, j, uiMask). 32 - j)") auto

function alloc_id_word :: "(nat \<Rightarrow> 32 word) \<Rightarrow> nat \<Rightarrow> ((nat \<Rightarrow> 32 word) \<times> 16 word) option" where
  "alloc_id_word ids i =
     (if i < PUTIMER_RES_MULTIPLIER
      then (if ids i \<noteq> 0xffffffff
            then (case alloc_id_bit (ids i) 0 1 of
                    Some (j, uiMask) \<Rightarrow> Some (ids(i := ids i OR uiMask), of_nat (j + i * 32))
                  | None \<Rightarrow> alloc_id_word ids (i + 1))
            else alloc_id_word ids (i + 1))
      else None)"
  by pat_completeness auto
termination
  by (relation "measure (\<lambda>(ids, i). PUTIMER_RES_MULTIPLIER - i)") auto

definition putimer_alloc_id :: "bool \<Rightarrow> (nat \<Rightarrow> 32 word) \<Rightarrow> fault + ((nat \<Rightarrow> 32 word) \<times> 16 word)" where
  "putimer_alloc_id dbg ids =
     (case alloc_id_word ids 0 of
        Some r \<Rightarrow> Inr r
      | None \<Rightarrow> if dbg then Inl AssertFailed else Inr (ids, 0xffff))"

definition putimer_free_id :: "bool \<Rightarrow> 16 word \<Rightarrow> (nat \<Rightarrow> 32 word) \<Rightarrow> fault + (nat \<Rightarrow> 32 word)" where
  "putimer_free_id dbg usId ids =
     (if dbg \<and> \<not> unat usId < PUTIMER_MAX_RESOURCES then Inl AssertFailed
      else let i = unat usId div 32;
               j = unat usId - i * 32;
               uiMask = push_bit j (1 :: 32 word)
           in if i < PUTIMER_RES_MULTIPLIER
              then Inr (ids(i := ids i AND NOT uiMask))
              else Inl OutOfBounds)"

subsection \<open>The pending queue\<close>

partial_function (option) add_walk ::
  "(nat \<Rightarrow> putimer_tmr_t) \<Rightarrow> timespec \<Rightarrow> nat option \<Rightarrow> nat option \<Rightarrow> (nat option \<times> nat option) option" where
  "add_walk pool te pPrev pCurr =
     (case pCurr of
        None \<Rightarrow> Some (pPrev, pCurr)
      | Some c \<Rightarrow>
          if \<not> timespec_is_a_after_b (tsEnd (pool c)) te
          then add_walk pool te (Some c) (pNext (pool c))
          else Some (pPrev, pCurr))"

definition putimer_add :: "nat \<Rightarrow> timespec \<Rightarrow> putimer_module \<Rightarrow> fault + (int \<times> putimer_module)" where
  "putimer_add pTmr tsNow s =
     (let pool = pTimerList s in
      if enState (pool pTmr) = PUTIMER_STATE_IDLE
      then
        let pool1 = (if iUseAbsTime (pool pTmr)
                   then pool(pTmr := (pool pTmr)\<lparr>iUseAbsTime := False\<rparr>)
                   else pool(pTmr := (pool pTmr)\<lparr>tsEnd := timespec_add_ms tsNow (uiPeriodMs (pool pTmr))\<rparr>))
        in case add_walk pool1 (tsEnd (pool1 pTmr)) None (pQueue s) of
             None \<Rightarrow> Inl Diverges
           | Some (pPrev, pCurr) \<Rightarrow>
               let (pool2, q2, iHeadUpdated) =
                     (case pPrev of
                        Some p \<Rightarrow> (pool1(p := (pool1 p)\<lparr>pNext := Some pTmr\<rparr>), pQueue s, 0)
                      | None \<Rightarrow> (pool1, Some pTmr, 1));
                   pool3 = pool2(pTmr := (pool2 pTmr)\<lparr>pNext := pCurr, enState := PUTIMER_STATE_WAITING\<rparr>)
               in Inr (iHeadUpdated, s\<lparr>pQueue := q2, pTimerList := pool3\<rparr>)
      else Inr (0, s))"

partial_function (option) remove_walk ::
  "(nat \<Rightarrow> putimer_tmr_t) \<Rightarrow> nat \<Rightarrow> nat option \<Rightarrow> nat option \<Rightarrow> (nat option \<times> nat option) option" where
  "remove_walk pool pTmr pPrev pCurr =
     (case pCurr of
        None \<Rightarrow> Some (pPrev, pCurr)
      | Some c \<Rightarrow>
          if c = pTmr then Some (pPrev, pCurr)
          else remove_walk pool pTmr (Some c) (pNext (pool c)))"

text \<open>
  \<open>putimer_remove\<close> returns \<open>iHeadUpdated\<close> with the two out-parameters
  \<open>*pWasActive\<close> and \<open>*pRemainingMs\<close>.
\<close>

definition putimer_remove ::
  "nat \<Rightarrow> timespec \<Rightarrow> putimer_module \<Rightarrow> fault + (int \<times> int \<times> 64 word \<times> putimer_module)" where
  "putimer_remove pTmr tsNow s =
     (let pool = pTimerList s;
          bInQ = (enState (pool pTmr) = PUTIMER_STATE_WAITING);
          pool1 = pool(pTmr := (pool pTmr)\<lparr>enState := PUTIMER_STATE_IDLE\<rparr>)
      in if bInQ
         then (case remove_walk pool1 pTmr None (pQueue s) of
                 None \<Rightarrow> Inl Diverges
               | Some (pPrev, None) \<Rightarrow> Inr (0, 0, 0, s\<lparr>pTimerList := pool1\<rparr>)
               | Some (pPrev, Some c) \<Rightarrow>
                   let (pool2, q2, iHeadUpdated) =
                         (case pPrev of
                            Some p \<Rightarrow> (pool1(p := (pool1 p)\<lparr>pNext := pNext (pool1 c)\<rparr>), pQueue s, 0)
                          | None \<Rightarrow> (pool1, pNext (pool1 c), 1));
                       uiRemainingMs =
                         (if timespec_is_a_after_b (tsEnd (pool2 c)) tsNow
                          then let tsDiff = timespec_a_sub_b (tsEnd (pool2 c)) tsNow
                               in word_of_int ((tv_nsec tsDiff sdiv 1000000) + (tv_sec tsDiff * 1000))
                          else 0)
                   in Inr (iHeadUpdated, 1, uiRemainingMs, s\<lparr>pQueue := q2, pTimerList := pool2\<rparr>))
         else Inr (0, 0, 0, s\<lparr>pTimerList := pool1\<rparr>))"

subsection \<open>The waiter thread\<close>

text \<open>
  One iteration of \<open>putimer_thread\<close> after the wait: the extraction pass under the
  wake lock, then the dispatch loop under the control lock. \<open>pCallList\<close> is the list
  of the \<open>uiToCall\<close> extracted slots; a write past its 128 entries is \<open>OutOfBounds\<close>.
\<close>

function extract_walk ::
  "timespec \<Rightarrow> (nat \<Rightarrow> putimer_tmr_t) \<Rightarrow> nat list \<Rightarrow> nat option \<Rightarrow> nat option \<Rightarrow>
   fault + ((nat \<Rightarrow> putimer_tmr_t) \<times> nat list \<times> nat option \<times> nat option)" where
  "extract_walk tsNow pool pCallList pPrev pCurr =
     (case pCurr of
        None \<Rightarrow> Inr (pool, pCallList, pPrev, pCurr)
      | Some c \<Rightarrow>
          if \<not> timespec_is_a_after_b (tsEnd (pool c)) tsNow
          then (if length pCallList < PUTIMER_MAX_RESOURCES
                then extract_walk tsNow (pool(c := (pool c)\<lparr>enState := PUTIMER_STATE_FIRED\<rparr>))
                       (pCallList @ [c]) (Some c) (pNext (pool c))
                else Inl OutOfBounds)
          else Inr (pool, pCallList, pPrev, pCurr))"
  by pat_completeness auto
termination
  by (relation "measure (\<lambda>(tsNow, pool, pCallList, pPrev, pCurr). PUTIMER_MAX_RESOURCES - length pCallList)")
     auto

definition putimer_thread_extract :: "timespec \<Rightarrow> putimer_module \<Rightarrow> fault + (nat list \<times> putimer_module)" where
  "putimer_thread_extract tsNow s =
     (if \<not> iKillThread s
      then (case extract_walk tsNow (pTimerList s) [] None (pQueue s) of
              Inl f \<Rightarrow> Inl f
            | Inr (pool, pCallList, pPrev, pCurr) \<Rightarrow>
                (case pPrev of
                   Some p \<Rightarrow> Inr (pCallList, s\<lparr>pQueue := pCurr, pTimerList := pool(p := (pool p)\<lparr>pNext := None\<rparr>)\<rparr>)
                 | None \<Rightarrow> Inr (pCallList, s\<lparr>pTimerList := pool\<rparr>)))
      else Inr ([], s))"

text \<open>
  A callback is client code: the model records which callbacks the waiter invokes
  (function reference, cookie, and whether the control lock is held), not what they do.
\<close>

record callback_call =
  cb_slot :: nat
  cb_fct :: nat
  cb_cookie :: "64 word"
  cb_locked :: bool

definition putimer_thread_dispatch_one ::
  "nat \<Rightarrow> timespec \<Rightarrow> putimer_module \<Rightarrow> fault + (callback_call list \<times> putimer_module)" where
  "putimer_thread_dispatch_one c tsNow s =
     (if enState (pTimerList s c) = PUTIMER_STATE_FIRED \<and> usTag (pTimerList s c) > 0
      then
        let s1 = s\<lparr>pTimerList := (pTimerList s)(c := (pTimerList s c)\<lparr>enState := PUTIMER_STATE_IDLE\<rparr>)\<rparr>
        in case (if enType (pTimerList s1 c) = PUTIMER_TYPE_PERIODIC
                 then putimer_add c tsNow s1 else Inr (0, s1)) of
             Inl f \<Rightarrow> Inl f
           | Inr (iHeadUpdated, s2) \<Rightarrow>
               (case pFct (pTimerList s2 c) of
                  Some f \<Rightarrow>
                    Inr ([\<lparr>cb_slot = c, cb_fct = f, cb_cookie = pCookie (pTimerList s2 c),
                           cb_locked = bLockable (pTimerList s2 c)\<rparr>], s2)
                | None \<Rightarrow> if bLockable (pTimerList s2 c) then Inl NullCall else Inr ([], s2))
      else Inr ([], s))"

text \<open>
  The dispatch loop over the call list; \<open>clock k\<close> is what \<open>clock_gettime\<close> returns
  should entry \<open>k\<close> be re-armed.
\<close>

fun putimer_thread_dispatch ::
  "nat list \<Rightarrow> nat \<Rightarrow> (nat \<Rightarrow> timespec) \<Rightarrow> putimer_module \<Rightarrow> fault + (callback_call list \<times> putimer_module)" where
  "putimer_thread_dispatch [] uiCalled clock s = Inr ([], s)"
| "putimer_thread_dispatch (c # cs) uiCalled clock s =
     (case putimer_thread_dispatch_one c (clock uiCalled) s of
        Inl f \<Rightarrow> Inl f
      | Inr (calls, s1) \<Rightarrow>
          (case putimer_thread_dispatch cs (uiCalled + 1) clock s1 of
             Inl f \<Rightarrow> Inl f
           | Inr (calls', s2) \<Rightarrow> Inr (calls @ calls', s2)))"

definition putimer_thread_pass ::
  "timespec \<Rightarrow> (nat \<Rightarrow> timespec) \<Rightarrow> putimer_module \<Rightarrow> fault + (callback_call list \<times> putimer_module)" where
  "putimer_thread_pass tsNow clock s =
     (case putimer_thread_extract tsNow s of
        Inl f \<Rightarrow> Inl f
      | Inr (pCallList, s1) \<Rightarrow>
          if \<not> iKillThread s1 \<and> length pCallList > 0
          then putimer_thread_dispatch pCallList 0 clock s1
          else Inr ([], s1))"

subsection \<open>The public interface\<close>

text \<open>
  The calls run under the control lock, one at a time, so each is a function from
  module state to module state. The clock reading a call may take is its argument
  \<open>tsNow\<close>. A null handle is \<open>0\<close>. The signal sent to the waiter when the queue
  head changed leaves the module state as it is and is not recorded.
\<close>

definition putimer_create_local ::
  "bool \<Rightarrow> putimer_type_t \<Rightarrow> nat option \<Rightarrow> 64 word \<Rightarrow> 64 word \<Rightarrow> bool \<Rightarrow> putimer_module \<Rightarrow>
   fault + (64 word \<times> putimer_module)" where
  "putimer_create_local dbg enType' fctCallback uiPeriodMs' pCookie' bLockable' s =
     (if dbg \<and> fctCallback = None then Inl AssertFailed
      else if dbg \<and> \<not> (enType' = PUTIMER_TYPE_SINGLESHOT \<or> enType' = PUTIMER_TYPE_PERIODIC)
      then Inl AssertFailed
      else
        let uiClamped = (if uiPeriodMs' < PUTIMER_MIN_TIMEOUT then PUTIMER_MIN_TIMEOUT else uiPeriodMs')
        in if iIsInit s \<and> fctCallback \<noteq> None \<and>
              (enType' = PUTIMER_TYPE_SINGLESHOT \<or> enType' = PUTIMER_TYPE_PERIODIC)
           then
             if unat (uiAllocatedTimers s) < PUTIMER_MAX_RESOURCES
             then (case putimer_alloc_id dbg (pTimerId s) of
                     Inl f \<Rightarrow> Inl f
                   | Inr (ids, usID') \<Rightarrow>
                       if \<not> unat usID' < PUTIMER_MAX_RESOURCES then Inl OutOfBounds
                       else if dbg \<and> usTag (pTimerList s (unat usID')) \<noteq> 0 then Inl AssertFailed
                       else
                         let tag = (if usRollingTag s + 1 = 0 then 1 else usRollingTag s + 1);
                             tmr = (pTimerList s (unat usID'))
                                     \<lparr>usID := usID', usTag := tag, enType := enType',
                                      pFct := fctCallback, pCookie := pCookie',
                                      uiPeriodMs := uiClamped, enState := PUTIMER_STATE_IDLE,
                                      iUseAbsTime := False, pNext := None, bLockable := bLockable'\<rparr>
                         in Inr (PUTIMER_HND_CREATE usID' tag,
                                 s\<lparr>pTimerId := ids, usRollingTag := tag,
                                   uiAllocatedTimers := uiAllocatedTimers s + 1,
                                   pTimerList := (pTimerList s)(unat usID' := tmr)\<rparr>))
             else Inr (0, s)
           else Inr (0, s))"

definition putimer_create ::
  "bool \<Rightarrow> putimer_type_t \<Rightarrow> nat option \<Rightarrow> 64 word \<Rightarrow> 64 word \<Rightarrow> putimer_module \<Rightarrow>
   fault + (64 word \<times> putimer_module)" where
  "putimer_create dbg enType' fctCallback uiPeriodMs' pCookie' s =
     putimer_create_local dbg enType' fctCallback uiPeriodMs' pCookie' False s"

definition putimer_create_lockable ::
  "bool \<Rightarrow> putimer_type_t \<Rightarrow> nat option \<Rightarrow> 64 word \<Rightarrow> 64 word \<Rightarrow> putimer_module \<Rightarrow>
   fault + (64 word \<times> putimer_module)" where
  "putimer_create_lockable dbg enType' fctCallback uiPeriodMs' pCookie' s =
     putimer_create_local dbg enType' fctCallback uiPeriodMs' pCookie' True s"

text \<open>
  \<open>putimer_init\<close>: the results of creating the control mutex, the condition
  variable, the wake mutex and the waiter thread are its arguments. \<open>pQueue\<close>,
  \<open>iKillThread\<close> and \<open>usRollingTag\<close> are not reset.
\<close>

definition putimer_init ::
  "bool \<Rightarrow> int \<Rightarrow> int \<Rightarrow> int \<Rightarrow> 64 word \<Rightarrow> putimer_module \<Rightarrow> fault + (int \<times> putimer_module)" where
  "putimer_init dbg rcLock rcCond rcWake pidTmrThread s =
     (if \<not> iIsInit s
      then
        if dbg \<and> rcLock \<noteq> 0 then Inl AssertFailed
        else
          let iResult1 = (if rcLock = 0 then rcCond else rcLock)
          in if dbg \<and> iResult1 \<noteq> 0 then Inl AssertFailed
             else
               let iResult2 = (if iResult1 = 0 then rcWake else iResult1)
               in if dbg \<and> iResult2 \<noteq> 0 then Inl AssertFailed
                  else
                    let s1 = s\<lparr>iIsInit := True, pTimerId := (\<lambda>_. 0),
                               uiAllocatedTimers := 0, pTimerList := (\<lambda>_. zero_tmr)\<rparr>
                    in if iResult2 = 0
                       then (if dbg \<and> pidTmrThread = 0 then Inl AssertFailed
                             else Inr (if pidTmrThread = 0 then - 1 else 0, s1))
                       else Inr (iResult2, s1)
      else Inr (0, s))"

definition putimer_exit :: "putimer_module \<Rightarrow> int \<times> putimer_module" where
  "putimer_exit s =
     (if iIsInit s
      then (0, s\<lparr>iIsInit := False, iKillThread := True, pTimerId := (\<lambda>_. 0),
                 uiAllocatedTimers := 0, pTimerList := (\<lambda>_. zero_tmr)\<rparr>)
      else (0, s))"

definition putimer_delete ::
  "bool \<Rightarrow> 64 word \<Rightarrow> timespec \<Rightarrow> putimer_module \<Rightarrow> fault + (int \<times> putimer_module)" where
  "putimer_delete dbg hndTimer tsNow s =
     (let usIdx = PUTIMER_HND_GET_IDX hndTimer in
      if unat usIdx < PUTIMER_MAX_RESOURCES
      then
        let usTag' = PUTIMER_HND_GET_TAG hndTimer in
        if usTag' = usTag (pTimerList s (unat usIdx))
        then
          if dbg \<and> uiAllocatedTimers s = 0 then Inl AssertFailed
          else if uiAllocatedTimers s \<noteq> 0
          then (case putimer_remove (unat usIdx) tsNow s of
                  Inl f \<Rightarrow> Inl f
                | Inr (iUpdateQ, iActive, uiMsLeft, s1) \<Rightarrow>
                    (case putimer_free_id dbg (usID (pTimerList s1 (unat usIdx))) (pTimerId s1) of
                       Inl f \<Rightarrow> Inl f
                     | Inr ids \<Rightarrow>
                         Inr (0, s1\<lparr>pTimerId := ids,
                                    uiAllocatedTimers := uiAllocatedTimers s1 - 1,
                                    pTimerList := (pTimerList s1)
                                      (unat usIdx := (pTimerList s1 (unat usIdx))\<lparr>usTag := 0\<rparr>)\<rparr>)))
          else Inr (- 1, s)
        else Inr (- 1, s)
      else Inr (- 1, s))"

definition putimer_set_period ::
  "bool \<Rightarrow> 64 word \<Rightarrow> 64 word \<Rightarrow> timespec \<Rightarrow> putimer_module \<Rightarrow> fault + (int \<times> putimer_module)" where
  "putimer_set_period dbg hndTimer uiPeriodMs' tsNow s =
     (let usIdx = PUTIMER_HND_GET_IDX hndTimer in
      if dbg \<and> \<not> unat usIdx < PUTIMER_MAX_RESOURCES then Inl AssertFailed
      else if unat usIdx < PUTIMER_MAX_RESOURCES
      then
        let uiClamped = (if uiPeriodMs' < PUTIMER_MIN_TIMEOUT then PUTIMER_MIN_TIMEOUT else uiPeriodMs');
            usTag' = PUTIMER_HND_GET_TAG hndTimer
        in if usTag' = usTag (pTimerList s (unat usIdx))
           then (case putimer_remove (unat usIdx) tsNow s of
                   Inl f \<Rightarrow> Inl f
                 | Inr (iUpdateQ, iActive, uiRemainingMs, s1) \<Rightarrow>
                     Inr (0, s1\<lparr>pTimerList := (pTimerList s1)
                                  (unat usIdx := (pTimerList s1 (unat usIdx))\<lparr>uiPeriodMs := uiClamped\<rparr>)\<rparr>))
           else Inr (- 1, s)
      else Inr (- 1, s))"

definition putimer_set_wake_time ::
  "bool \<Rightarrow> 64 word \<Rightarrow> timespec \<Rightarrow> timespec \<Rightarrow> timespec \<Rightarrow> timespec \<Rightarrow> putimer_module \<Rightarrow>
   fault + (int \<times> putimer_module)" where
  "putimer_set_wake_time dbg hndTimer pWake stMT stRT tsNow s =
     (let usIdx = PUTIMER_HND_GET_IDX hndTimer in
      if dbg \<and> \<not> unat usIdx < PUTIMER_MAX_RESOURCES then Inl AssertFailed
      else if unat usIdx < PUTIMER_MAX_RESOURCES
      then
        let usTag' = PUTIMER_HND_GET_TAG hndTimer
        in if usTag' = usTag (pTimerList s (unat usIdx))
           then
             if dbg \<and> enType (pTimerList s (unat usIdx)) \<noteq> PUTIMER_TYPE_SINGLESHOT
             then Inl AssertFailed
             else if enType (pTimerList s (unat usIdx)) = PUTIMER_TYPE_SINGLESHOT
             then (case putimer_remove (unat usIdx) tsNow s of
                     Inl f \<Rightarrow> Inl f
                   | Inr (iUpdateQ, iActive, uiRemainingMs, s1) \<Rightarrow>
                       Inr (0, s1\<lparr>pTimerList := (pTimerList s1)
                                    (unat usIdx := (pTimerList s1 (unat usIdx))
                                       \<lparr>tsEnd := timespec_realtime_to_monotonic pWake stMT stRT,
                                        iUseAbsTime := True\<rparr>)\<rparr>))
             else Inr (- 1, s)
           else Inr (- 1, s)
      else Inr (- 1, s))"

definition putimer_start ::
  "bool \<Rightarrow> 64 word \<Rightarrow> timespec \<Rightarrow> putimer_module \<Rightarrow> fault + (int \<times> putimer_module)" where
  "putimer_start dbg hndTimer tsNow s =
     (let usIdx = PUTIMER_HND_GET_IDX hndTimer in
      if dbg \<and> \<not> unat usIdx < PUTIMER_MAX_RESOURCES then Inl AssertFailed
      else if unat usIdx < PUTIMER_MAX_RESOURCES
      then
        let usTag' = PUTIMER_HND_GET_TAG hndTimer
        in if usTag' = usTag (pTimerList s (unat usIdx))
           then (case putimer_add (unat usIdx) tsNow s of
                   Inl f \<Rightarrow> Inl f
                 | Inr (iUpdatedQ, s1) \<Rightarrow> Inr (0, s1))
           else Inr (- 1, s)
      else Inr (- 1, s))"

text \<open>
  \<open>putimer_is_active\<close> and \<open>putimer_stop\<close> return their out-parameter beside the
  return code: \<open>None\<close> when the call does not write it.
\<close>

definition putimer_is_active ::
  "bool \<Rightarrow> 64 word \<Rightarrow> putimer_module \<Rightarrow> fault + (int \<times> bool option \<times> putimer_module)" where
  "putimer_is_active dbg hndTimer s =
     (let usIdx = PUTIMER_HND_GET_IDX hndTimer in
      if dbg \<and> \<not> unat usIdx < PUTIMER_MAX_RESOURCES then Inl AssertFailed
      else if unat usIdx < PUTIMER_MAX_RESOURCES
      then
        let usTag' = PUTIMER_HND_GET_TAG hndTimer
        in if usTag' = usTag (pTimerList s (unat usIdx))
           then Inr (0, Some (enState (pTimerList s (unat usIdx)) \<noteq> PUTIMER_STATE_IDLE), s)
           else Inr (- 1, None, s)
      else Inr (- 1, None, s))"

definition putimer_stop ::
  "bool \<Rightarrow> 64 word \<Rightarrow> timespec \<Rightarrow> putimer_module \<Rightarrow> fault + (int \<times> 64 word option \<times> putimer_module)" where
  "putimer_stop dbg hndTimer tsNow s =
     (let usIdx = PUTIMER_HND_GET_IDX hndTimer in
      if dbg \<and> \<not> unat usIdx < PUTIMER_MAX_RESOURCES then Inl AssertFailed
      else if unat usIdx < PUTIMER_MAX_RESOURCES
      then
        let usTag' = PUTIMER_HND_GET_TAG hndTimer
        in if usTag' = usTag (pTimerList s (unat usIdx))
           then (case putimer_remove (unat usIdx) tsNow s of
                   Inl f \<Rightarrow> Inl f
                 | Inr (iUpdateQ, iActive, uiMsLeft, s1) \<Rightarrow> Inr (0, Some uiMsLeft, s1))
           else Inr (- 1, None, s)
      else Inr (- 1, None, s))"

section \<open>Specification predicates\<close>

text \<open>
  A handle is stale for a module state when its slot index is outside the pool or
  its tag is not the tag the slot carries.
\<close>

definition stale_handle :: "64 word \<Rightarrow> putimer_module \<Rightarrow> bool" where
  "stale_handle hnd s =
     (\<not> unat (PUTIMER_HND_GET_IDX hnd) < PUTIMER_MAX_RESOURCES \<or>
      PUTIMER_HND_GET_TAG hnd \<noteq> usTag (pTimerList s (unat (PUTIMER_HND_GET_IDX hnd))))"

text \<open>Bit \<open>k\<close> of the id bitmap: bit \<open>k mod 32\<close> of word \<open>k div 32\<close>.\<close>

definition id_bit :: "(nat \<Rightarrow> 32 word) \<Rightarrow> nat \<Rightarrow> bool" where
  "id_bit ids k = bit (ids (k div 32)) (k mod 32)"

text \<open>
  The tag a creation stamps: the rolling tag incremented, a wrap to 0 mapped to 1
  (\<open>usRollingTag++; if (0 == usRollingTag) usRollingTag = 1;\<close>).
\<close>

definition rolled_tag :: "16 word \<Rightarrow> 16 word" where
  "rolled_tag r = (if r + 1 = 0 then 1 else r + 1)"

text \<open>
  The capacity invariant of the pool: the count of allocated timers is the number
  of set bits of the bitmap, bit \<open>k\<close> is set exactly when slot \<open>k\<close> carries a
  non-zero tag, and a slot with a non-zero tag records its own index.
\<close>

definition pool_inv :: "putimer_module \<Rightarrow> bool" where
  "pool_inv s =
     (unat (uiAllocatedTimers s) = card {k. k < PUTIMER_MAX_RESOURCES \<and> id_bit (pTimerId s) k} \<and>
      (\<forall>k<PUTIMER_MAX_RESOURCES. id_bit (pTimerId s) k = (usTag (pTimerList s k) \<noteq> 0)) \<and>
      (\<forall>k<PUTIMER_MAX_RESOURCES. usTag (pTimerList s k) \<noteq> 0 \<longrightarrow> usID (pTimerList s k) = of_nat k))"

text \<open>
  The pending queue as a list: \<open>queue_seg pool p xs q\<close> holds when following
  \<open>pNext\<close> from pointer \<open>p\<close> visits exactly the slots \<open>xs\<close> and arrives at \<open>q\<close>.
  The queue of a module state is the segment from \<open>pQueue\<close> to \<open>nullptr\<close>.
\<close>

fun queue_seg :: "(nat \<Rightarrow> putimer_tmr_t) \<Rightarrow> nat option \<Rightarrow> nat list \<Rightarrow> nat option \<Rightarrow> bool" where
  "queue_seg pool p [] q = (p = q)"
| "queue_seg pool p (x # xs) q = (p = Some x \<and> queue_seg pool (pNext (pool x)) xs q)"

definition pending_queue :: "putimer_module \<Rightarrow> nat list \<Rightarrow> bool" where
  "pending_queue s xs = queue_seg (pTimerList s) (pQueue s) xs None"

text \<open>
  The order of the queue is the order of \<open>timespec_is_a_after_b\<close>: a slot expires no
  later than a time when its \<open>tsEnd\<close> is not after it.
\<close>

definition due_by :: "(nat \<Rightarrow> putimer_tmr_t) \<Rightarrow> timespec \<Rightarrow> nat \<Rightarrow> bool" where
  "due_by pool te x = (\<not> timespec_is_a_after_b (tsEnd (pool x)) te)"

definition queue_sorted :: "(nat \<Rightarrow> putimer_tmr_t) \<Rightarrow> nat list \<Rightarrow> bool" where
  "queue_sorted pool xs = sorted_wrt (\<lambda>a b. due_by pool (tsEnd (pool b)) a) xs"

definition ptr_of :: "nat list \<Rightarrow> nat option" where
  "ptr_of xs = (case xs of [] \<Rightarrow> None | x # _ \<Rightarrow> Some x)"

text \<open>The expiration \<open>putimer_add\<close> gives a slot: the explicit time if one is set, else now plus the period.\<close>

definition arm_time :: "timespec \<Rightarrow> putimer_tmr_t \<Rightarrow> timespec" where
  "arm_time tsNow tmr =
     (if iUseAbsTime tmr then tsEnd tmr else timespec_add_ms tsNow (uiPeriodMs tmr))"

text \<open>
  A module state with three timers, used to instantiate the theorems: slots 0 and 1
  wait in the queue for 1 s and 5 s, slot 2 is allocated and idle.
\<close>

definition queue_example :: putimer_module where
  "queue_example =
     \<lparr>pQueue = Some 0, iIsInit = True, iKillThread = False,
      pTimerId = (\<lambda>_. 0)(0 := 7), usRollingTag = 3, uiAllocatedTimers = 3,
      pTimerList = (\<lambda>_. zero_tmr)
        (0 := zero_tmr\<lparr>usID := 0, usTag := 1, pFct := Some 0, uiPeriodMs := 10,
                      tsEnd := \<lparr>tv_sec = 1, tv_nsec = 0\<rparr>,
                      enState := PUTIMER_STATE_WAITING, bLockable := True, pNext := Some 1\<rparr>,
         1 := zero_tmr\<lparr>usID := 1, usTag := 2, pFct := Some 0, uiPeriodMs := 10,
                      tsEnd := \<lparr>tv_sec = 5, tv_nsec = 0\<rparr>,
                      enState := PUTIMER_STATE_WAITING, pNext := None\<rparr>,
         2 := zero_tmr\<lparr>usID := 2, usTag := 3, pFct := Some 0, uiPeriodMs := 1000\<rparr>)\<rparr>"

text \<open>The pool with the slots \<open>ys\<close> marked fired.\<close>

definition mark_fired :: "(nat \<Rightarrow> putimer_tmr_t) \<Rightarrow> nat list \<Rightarrow> (nat \<Rightarrow> putimer_tmr_t)" where
  "mark_fired pool ys = (\<lambda>x. if x \<in> set ys then (pool x)\<lparr>enState := PUTIMER_STATE_FIRED\<rparr> else pool x)"

text \<open>
  The module after a successful \<open>putimer_init\<close> of the static state, and that module
  after \<open>putimer_create\<close> of a single-shot timer with callback 0, period 100 and a null
  cookie: slot 0 carries tag 1.
\<close>

definition init_module :: putimer_module where
  "init_module = static_module\<lparr>iIsInit := True\<rparr>"

definition one_timer_module :: putimer_module where
  "one_timer_module =
     init_module\<lparr>pTimerId := (\<lambda>_. 0)(0 := 1), usRollingTag := 1, uiAllocatedTimers := 1,
       pTimerList := (\<lambda>_. zero_tmr)(0 := zero_tmr\<lparr>usTag := 1, pFct := Some 0, uiPeriodMs := 100\<rparr>)\<rparr>"

text \<open>
  Executions of the module. The control lock makes each call of the interface one
  step; the waiter thread contributes its extraction pass and, for one entry of its
  call list, the dispatch of that entry (a run may dispatch any slot at any time,
  which covers every interleaving of the waiter with the callers).
\<close>

datatype api_call =
    Init int int int "64 word"
  | Exit
  | Create putimer_type_t "nat option" "64 word" "64 word" bool
  | Delete "64 word" timespec
  | SetPeriod "64 word" "64 word" timespec
  | SetWakeTime "64 word" timespec timespec timespec timespec
  | Start "64 word" timespec
  | IsActive "64 word"
  | Stop "64 word" timespec
  | Extract timespec
  | DispatchOne nat timespec

fun step :: "bool \<Rightarrow> api_call \<Rightarrow> putimer_module \<Rightarrow> fault + putimer_module" where
  "step dbg (Init rcLock rcCond rcWake pid) s = map_sum id snd (putimer_init dbg rcLock rcCond rcWake pid s)"
| "step dbg Exit s = Inr (snd (putimer_exit s))"
| "step dbg (Create ty fct ms ck lk) s = map_sum id snd (putimer_create_local dbg ty fct ms ck lk s)"
| "step dbg (Delete hnd tsNow) s = map_sum id snd (putimer_delete dbg hnd tsNow s)"
| "step dbg (SetPeriod hnd ms tsNow) s = map_sum id snd (putimer_set_period dbg hnd ms tsNow s)"
| "step dbg (SetWakeTime hnd pWake stMT stRT tsNow) s =
     map_sum id snd (putimer_set_wake_time dbg hnd pWake stMT stRT tsNow s)"
| "step dbg (Start hnd tsNow) s = map_sum id snd (putimer_start dbg hnd tsNow s)"
| "step dbg (IsActive hnd) s = map_sum id (\<lambda>r. snd (snd r)) (putimer_is_active dbg hnd s)"
| "step dbg (Stop hnd tsNow) s = map_sum id (\<lambda>r. snd (snd r)) (putimer_stop dbg hnd tsNow s)"
| "step dbg (Extract tsNow) s = map_sum id snd (putimer_thread_extract tsNow s)"
| "step dbg (DispatchOne c tsNow) s = map_sum id snd (putimer_thread_dispatch_one c tsNow s)"

fun run :: "bool \<Rightarrow> api_call list \<Rightarrow> putimer_module \<Rightarrow> fault + putimer_module" where
  "run dbg [] s = Inr s"
| "run dbg (c # cs) s = (case step dbg c s of Inl f \<Rightarrow> Inl f | Inr s1 \<Rightarrow> run dbg cs s1)"

text \<open>The number of creations in a run that return a handle other than null.\<close>

fun creations :: "bool \<Rightarrow> api_call list \<Rightarrow> putimer_module \<Rightarrow> nat" where
  "creations dbg [] s = 0"
| "creations dbg (c # cs) s =
     (case step dbg c s of
        Inl f \<Rightarrow> 0
      | Inr s1 \<Rightarrow>
          (case c of
             Create ty fct ms ck lk \<Rightarrow>
               (case putimer_create_local dbg ty fct ms ck lk s of
                  Inr (hnd, s') \<Rightarrow> if hnd \<noteq> 0 then 1 else 0
                | Inl f \<Rightarrow> 0)
           | _ \<Rightarrow> 0) + creations dbg cs s1)"

text \<open>Two module states with the same allocation data: bitmap, count, rolling tag, tags and ids.\<close>

definition same_alloc :: "putimer_module \<Rightarrow> putimer_module \<Rightarrow> bool" where
  "same_alloc s s' =
     (pTimerId s' = pTimerId s \<and> usRollingTag s' = usRollingTag s \<and>
      uiAllocatedTimers s' = uiAllocatedTimers s \<and>
      (\<forall>x. usTag (pTimerList s' x) = usTag (pTimerList s x)) \<and>
      (\<forall>x. usID (pTimerList s' x) = usID (pTimerList s x)))"

text \<open>
  The part of the capacity invariant that every run keeps: a set bit belongs to a
  slot with a non-zero tag, and a slot with a non-zero tag records its own index.
\<close>

definition tag_inv :: "putimer_module \<Rightarrow> bool" where
  "tag_inv s =
     (\<forall>k<PUTIMER_MAX_RESOURCES.
        (id_bit (pTimerId s) k \<longrightarrow> usTag (pTimerList s k) \<noteq> 0) \<and>
        (usTag (pTimerList s k) \<noteq> 0 \<longrightarrow> usID (pTimerList s k) = of_nat k))"

text \<open>
  The module after \<open>putimer_init\<close> and two creations (single-shot, callback 0, periods
  1000 ms and 500 ms: handles \<open>0x1\<close> and \<open>0x10002\<close>), and that module after
  \<open>putimer_start\<close> of the first timer at time 2 s: slot 0 waits for 3 s.
\<close>

definition two_timer_module :: putimer_module where
  "two_timer_module =
     init_module\<lparr>pTimerId := (\<lambda>_. 0)(0 := 3), usRollingTag := 2, uiAllocatedTimers := 2,
       pTimerList := (\<lambda>_. zero_tmr)
         (0 := zero_tmr\<lparr>usTag := 1, pFct := Some 0, uiPeriodMs := 1000\<rparr>,
          1 := zero_tmr\<lparr>usID := 1, usTag := 2, pFct := Some 0, uiPeriodMs := 500\<rparr>)\<rparr>"

definition tie_module :: putimer_module where
  "tie_module =
     two_timer_module\<lparr>pQueue := Some 0,
       pTimerList := (pTimerList two_timer_module)
         (0 := (pTimerList two_timer_module 0)
                 \<lparr>tsEnd := \<lparr>tv_sec = 3, tv_nsec = 0\<rparr>, enState := PUTIMER_STATE_WAITING\<rparr>)\<rparr>"

definition tie_calls :: "api_call list" where
  "tie_calls =
     [Init 0 0 0 1,
      Create PUTIMER_TYPE_SINGLESHOT (Some 0) 1000 0 False,
      Create PUTIMER_TYPE_SINGLESHOT (Some 0) 500 0 False,
      Start 0x1 \<lparr>tv_sec = 2, tv_nsec = 0\<rparr>]"






text \<open>
  The module with no timer allocated, rolling tag \<open>r\<close> and slot 0 as a creation with
  callback 0 and period 100 followed by its deletion leaves it; \<open>churn n r\<close> creates
  and deletes such a timer \<open>n\<close> times starting from rolling tag \<open>r\<close>, each deletion
  with the handle the creation before it returns; \<open>wrap_module\<close> is the module with
  that timer allocated in slot 0 under tag 1.
\<close>

definition churn_module :: "16 word \<Rightarrow> putimer_module" where
  "churn_module r =
     init_module\<lparr>usRollingTag := r,
       pTimerList := (\<lambda>_. zero_tmr)(0 := zero_tmr\<lparr>pFct := Some 0, uiPeriodMs := 100\<rparr>)\<rparr>"

fun churn :: "nat \<Rightarrow> 16 word \<Rightarrow> api_call list" where
  "churn 0 r = []"
| "churn (Suc n) r =
     Create PUTIMER_TYPE_SINGLESHOT (Some 0) 100 0 False #
     Delete (PUTIMER_HND_CREATE 0 (rolled_tag r)) \<lparr>tv_sec = 0, tv_nsec = 0\<rparr> #
     churn n (rolled_tag r)"

definition wrap_calls :: "api_call list" where
  "wrap_calls = churn 65534 1 @ [Create PUTIMER_TYPE_SINGLESHOT (Some 0) 100 0 False]"

definition wrap_module :: putimer_module where
  "wrap_module =
     init_module\<lparr>pTimerId := (\<lambda>_. 0)(0 := 1), usRollingTag := 1, uiAllocatedTimers := 1,
       pTimerList := (\<lambda>_. zero_tmr)(0 := zero_tmr\<lparr>usTag := 1, pFct := Some 0, uiPeriodMs := 100\<rparr>)\<rparr>"



fun waiter_until :: "timespec \<Rightarrow> api_call \<Rightarrow> bool" where
  "waiter_until t1 (Extract t) = (timespec_normalized t \<and> timespec_ns t \<le> timespec_ns t1)"
| "waiter_until t1 (DispatchOne k t) = (k < PUTIMER_MAX_RESOURCES)"
| "waiter_until t1 c = False"



section \<open>Time arithmetic: properties\<close>

lemma sint_small: "unat (w::64 word) < 2^63 \<Longrightarrow> sint w = int (unat w)"
proof -
  assume a: "unat w < 2^63"
  have "uint w = int (unat w)" by simp
  moreover have "int (unat w) < 2^63" using a by (simp add: nat_int_comparison(2))
  moreover have "- (2^63) \<le> int (unat w)"
    by (rule order_trans [of _ 0]) simp_all
  ultimately have "signed_take_bit 63 (uint w) = uint w"
    by (intro signed_take_bit_int_eq_self) simp_all
  then show ?thesis by (simp add: sint_uint)
qed

lemma sint_ms_div: "sint ((ulMs :: 64 word) div 1000) = int (unat ulMs div 1000)"
proof -
  have "unat ulMs < 2^64" using unsigned_less [of ulMs, where 'a=nat] by simp
  then have "unat (ulMs div 1000) < 2^63" by (simp add: unat_div)
  then show ?thesis by (simp add: sint_small unat_div)
qed

lemma ms_rem: "(ulMs :: 64 word) - (ulMs div 1000) * 1000 = ulMs mod 1000"
  using minus_div_mult_eq_mod by blast

lemma sint_ms_ns:
  "sint (((ulMs :: 64 word) mod 1000) * 1000000) = int (unat ulMs mod 1000) * 1000000"
proof -
  have a: "unat (ulMs mod 1000) = unat ulMs mod 1000" by (simp add: unat_mod)
  have b: "unat ulMs mod 1000 < 1000" by simp
  have "unat (ulMs mod 1000) * unat (1000000 :: 64 word) < 2 ^ 64" using a b by simp
  then have c: "unat ((ulMs mod 1000) * 1000000) = unat ulMs mod 1000 * 1000000"
    using a by (simp add: unat_mult_lem [THEN iffD1])
  have "unat ulMs mod 1000 * 1000000 < 2^63" using b by simp
  then show ?thesis by (simp add: sint_small c)
qed

text \<open>The word arithmetic of \<open>timespec_add_ms\<close> never wraps.\<close>

lemma timespec_add_ms_alt:
  "timespec_add_ms pTs ulMs =
     (let sec = tv_sec pTs + int (unat ulMs div 1000);
          nsec = tv_nsec pTs + int (unat ulMs mod 1000) * 1000000
      in if nsec > 1000000000
         then \<lparr>tv_sec = sec + 1, tv_nsec = nsec - 1000000000\<rparr>
         else \<lparr>tv_sec = sec, tv_nsec = nsec\<rparr>)"
  by (simp add: timespec_add_ms_def sint_ms_div ms_rem sint_ms_ns Let_def)

lemma timespec_add_ms_value:
  "timespec_ns (timespec_add_ms pTs ulMs) = timespec_ns pTs + int (unat ulMs) * 1000000"
proof -
  have "int (unat ulMs) = int (unat ulMs div 1000) * 1000 + int (unat ulMs mod 1000)"
    by (simp add: zdiv_int zmod_int)
  then show ?thesis
    by (simp add: timespec_add_ms_alt timespec_ns_def Let_def algebra_simps)
qed

text \<open>
  C10. \<open>timespec_add_ms\<close> on a normalized timespec: the claim asks for a result
  with \<open>tv_nsec\<close> strictly below 1,000,000,000. The carry test of the source is
  \<open>tv_nsec > 1000000000\<close>, so a sum of exactly 1,000,000,000 nanoseconds is kept:
  adding 500 ms to 0 s 500,000,000 ns gives 0 s 1,000,000,000 ns, not 1 s 0 ns.
\<close>

theorem timespec_add_ms_carry_missed:
  "timespec_normalized \<lparr>tv_sec = 0, tv_nsec = 500000000\<rparr> \<and>
   timespec_add_ms \<lparr>tv_sec = 0, tv_nsec = 500000000\<rparr> 500 = \<lparr>tv_sec = 0, tv_nsec = 1000000000\<rparr> \<and>
   \<not> timespec_normalized (timespec_add_ms \<lparr>tv_sec = 0, tv_nsec = 500000000\<rparr> 500)"
  by (simp add: timespec_add_ms_def timespec_normalized_def)

section \<open>Stale handles\<close>

text \<open>
  C1 (as amended). A call with a stale handle changes nothing. \<open>putimer_delete\<close>
  returns -1 in every build. The other five calls return -1 in a release build, and
  in a debug build when the slot index is inside the pool; in a debug build an index
  outside the pool fails their \<open>ASSERT\<close> instead.
\<close>

theorem stale_handle_rejected:
  assumes "stale_handle hnd s"
  shows "putimer_delete dbg hnd tsNow s = Inr (- 1, s) \<and>
     (if dbg \<and> \<not> unat (PUTIMER_HND_GET_IDX hnd) < PUTIMER_MAX_RESOURCES
      then putimer_start dbg hnd tsNow s = Inl AssertFailed \<and>
           putimer_stop dbg hnd tsNow s = Inl AssertFailed \<and>
           putimer_set_period dbg hnd ms tsNow s = Inl AssertFailed \<and>
           putimer_set_wake_time dbg hnd pWake stMT stRT tsNow s = Inl AssertFailed \<and>
           putimer_is_active dbg hnd s = Inl AssertFailed
      else putimer_start dbg hnd tsNow s = Inr (- 1, s) \<and>
           putimer_stop dbg hnd tsNow s = Inr (- 1, None, s) \<and>
           putimer_set_period dbg hnd ms tsNow s = Inr (- 1, s) \<and>
           putimer_set_wake_time dbg hnd pWake stMT stRT tsNow s = Inr (- 1, s) \<and>
           putimer_is_active dbg hnd s = Inr (- 1, None, s))"
  using assms
  by (auto simp add: stale_handle_def putimer_delete_def putimer_start_def putimer_stop_def
      putimer_set_period_def putimer_set_wake_time_def putimer_is_active_def Let_def)

lemma hnd_idx_128: "unat (PUTIMER_HND_GET_IDX 0x800000) = 128"
  by (simp add: PUTIMER_HND_GET_IDX_def)

lemma max_resources_128: "PUTIMER_MAX_RESOURCES = 128"
  by (simp add: PUTIMER_MAX_RESOURCES_def PUTIMER_RES_UNITS_def PUTIMER_RES_MULTIPLIER_def)

theorem stale_handle_rejected_witness:
  "stale_handle 0x800000 static_module \<and>
   putimer_delete False 0x800000 \<lparr>tv_sec = 0, tv_nsec = 0\<rparr> static_module = Inr (- 1, static_module) \<and>
   putimer_start False 0x800000 \<lparr>tv_sec = 0, tv_nsec = 0\<rparr> static_module = Inr (- 1, static_module)"
proof -
  have st: "stale_handle 0x800000 static_module"
    by (simp add: stale_handle_def hnd_idx_128 max_resources_128)
  show ?thesis
    using st stale_handle_rejected [OF st, of False "\<lparr>tv_sec = 0, tv_nsec = 0\<rparr>"]
    by simp
qed

text \<open>
  C1 as stated fails in a debug build: the handle with slot index 128 makes
  \<open>putimer_start\<close> fail \<open>ASSERT( usIdx < PUTIMER_MAX_RESOURCES )\<close>.
\<close>

theorem stale_handle_debug_counterexample:
  "stale_handle 0x800000 static_module \<and>
   putimer_start True 0x800000 \<lparr>tv_sec = 0, tv_nsec = 0\<rparr> static_module \<noteq> Inr (- 1, static_module)"
  by (simp add: stale_handle_def putimer_start_def hnd_idx_128 max_resources_128)

section \<open>The id bitmap: properties\<close>

declare alloc_id_bit.simps [simp del] alloc_id_word.simps [simp del]

lemma and_mask_bit: "((w :: 32 word) AND 2 ^ j = 0) = (\<not> bit w j)"
  by (simp add: and_exp_eq_0_iff_not_bit)

lemma alloc_id_bit_Some:
  "uiMask = 2 ^ j \<Longrightarrow> alloc_id_bit w j uiMask = Some (k, m) \<Longrightarrow>
     j \<le> k \<and> k < 32 \<and> m = 2 ^ k \<and> \<not> bit w k \<and> (\<forall>l. j \<le> l \<and> l < k \<longrightarrow> bit w l)"
proof (induction w j uiMask rule: alloc_id_bit.induct)
  case (1 w j uiMask)
  show ?case
  proof (cases "j < 32 \<and> w AND uiMask \<noteq> 0")
    case True
    then have rec: "alloc_id_bit w (j + 1) (push_bit 1 uiMask) = Some (k, m)"
      using "1.prems"(2) by (subst (asm) alloc_id_bit.simps) simp
    have "push_bit 1 uiMask = 2 ^ (j + 1)" using "1.prems"(1) by (simp add: push_bit_eq_mult)
    from "1.IH" [OF _ _ this rec] True
    have ih: "j + 1 \<le> k \<and> k < 32 \<and> m = 2 ^ k \<and> \<not> bit w k \<and> (\<forall>l. j + 1 \<le> l \<and> l < k \<longrightarrow> bit w l)"
      by simp
    have "bit w j" using True "1.prems"(1) by (simp add: and_mask_bit)
    have "\<forall>l. j \<le> l \<and> l < k \<longrightarrow> bit w l"
    proof (intro allI impI)
      fix l assume "j \<le> l \<and> l < k"
      then consider "l = j" | "j + 1 \<le> l \<and> l < k" by linarith
      then show "bit w l" using \<open>bit w j\<close> ih by cases auto
    qed
    then show ?thesis using ih by simp
  next
    case False
    have unf: "alloc_id_bit w j uiMask =
      (if j < 32 then (if w AND uiMask = 0 then Some (j, uiMask)
            else alloc_id_bit w (j + 1) (push_bit 1 uiMask)) else None)"
      by (rule alloc_id_bit.simps)
    from False "1.prems"(2) have "j < 32 \<and> w AND uiMask = 0 \<and> k = j \<and> m = uiMask"
      unfolding unf by (simp split: if_splits)
    then show ?thesis using "1.prems"(1) by (auto simp add: and_mask_bit)
  qed
qed

lemma alloc_id_bit_None:
  "uiMask = 2 ^ j \<Longrightarrow> alloc_id_bit w j uiMask = None \<Longrightarrow> (\<forall>l. j \<le> l \<and> l < 32 \<longrightarrow> bit w l)"
proof (induction w j uiMask rule: alloc_id_bit.induct)
  case (1 w j uiMask)
  show ?case
  proof (cases "j < 32")
    case True
    then have nz: "w AND uiMask \<noteq> 0" and rec: "alloc_id_bit w (j + 1) (push_bit 1 uiMask) = None"
      using "1.prems"(2) by (subst (asm) alloc_id_bit.simps, simp split: if_splits)+
    have "push_bit 1 uiMask = 2 ^ (j + 1)" using "1.prems"(1) by (simp add: push_bit_eq_mult)
    from "1.IH" [OF True nz this rec]
    have ih: "\<forall>l. j + 1 \<le> l \<and> l < 32 \<longrightarrow> bit w l" .
    have "bit w j" using nz "1.prems"(1) by (simp add: and_mask_bit)
    have "\<forall>l. j \<le> l \<and> l < 32 \<longrightarrow> bit w l"
    proof (intro allI impI)
      fix l assume "j \<le> l \<and> l < 32"
      then consider "l = j" | "j + 1 \<le> l \<and> l < 32" by linarith
      then show "bit w l" using \<open>bit w j\<close> ih by cases auto
    qed
    then show ?thesis .
  next
    case False
    then show ?thesis by auto
  qed
qed

lemma word32_not_full: "(w :: 32 word) \<noteq> 0xffffffff \<Longrightarrow> \<exists>k<32. \<not> bit w k"
proof (rule ccontr)
  assume a: "w \<noteq> 0xffffffff" and b: "\<not> (\<exists>k<32. \<not> bit w k)"
  have "w = - 1"
  proof (rule bit_word_eqI)
    fix n assume "n < LENGTH(32)"
    then show "bit w n = bit (- 1 :: 32 word) n" using b by simp
  qed
  then show False using a by simp
qed

lemma word32_full: "bit (0xffffffff :: 32 word) k = (k < 32)"
proof -
  have "(0xffffffff :: 32 word) = - 1" by simp
  then show ?thesis by (simp only: bit_minus_1_iff) (simp add: )
qed

lemma bit_or_exp32: "k < 32 \<Longrightarrow> bit ((w :: 32 word) OR 2 ^ k) l = (l = k \<or> bit w l)"
  by (auto simp add: bit_or_iff bit_exp_iff possible_bit_word)

lemma bit_and_not_exp32: "bit ((w :: 32 word) AND NOT (2 ^ k)) l = (l \<noteq> k \<and> bit w l)"
  by (auto simp add: bit_and_iff bit_not_iff bit_exp_iff possible_bit_word dest: bit_imp_le_length)

lemma id_bit_set:
  "id_bit (ids(k div 32 := ids (k div 32) OR 2 ^ (k mod 32))) l = (l = k \<or> id_bit ids l)"
proof (cases "l div 32 = k div 32")
  case True
  have "(l mod 32 = k mod 32) = (l = k)" using True by (metis div_mult_mod_eq)
  then show ?thesis using True by (simp add: id_bit_def bit_or_exp32)
next
  case False
  then show ?thesis by (auto simp add: id_bit_def)
qed

lemma id_bit_clear:
  "id_bit (ids(k div 32 := ids (k div 32) AND NOT (push_bit (k - k div 32 * 32) 1))) l =
     (l \<noteq> k \<and> id_bit ids l)"
proof (cases "l div 32 = k div 32")
  case True
  have e: "k - k div 32 * 32 = k mod 32" by (simp add: minus_div_mult_eq_mod)
  have "(l mod 32 = k mod 32) = (l = k)" using True by (metis div_mult_mod_eq)
  then show ?thesis using True by (simp add: id_bit_def bit_and_not_exp32 e)
next
  case False
  then show ?thesis by (auto simp add: id_bit_def)
qed

lemma div32_eq: "i * 32 \<le> l \<Longrightarrow> l < 32 + i * 32 \<Longrightarrow> l div 32 = (i::nat)"
  by simp

lemma alloc_id_word_Some:
  "alloc_id_word ids i = Some (ids', usID') \<Longrightarrow>
     \<exists>k. i * 32 \<le> k \<and> k < 128 \<and> usID' = of_nat k \<and> \<not> id_bit ids k \<and>
         (\<forall>l. i * 32 \<le> l \<and> l < k \<longrightarrow> id_bit ids l) \<and>
         ids' = ids(k div 32 := ids (k div 32) OR 2 ^ (k mod 32))"
proof (induction ids i rule: alloc_id_word.induct)
  case (1 ids i)
  have unf: "alloc_id_word ids i =
     (if i < PUTIMER_RES_MULTIPLIER
      then (if ids i \<noteq> 0xffffffff
            then (case alloc_id_bit (ids i) 0 1 of
                    Some (j, uiMask) \<Rightarrow> Some (ids(i := ids i OR uiMask), of_nat (j + i * 32))
                  | None \<Rightarrow> alloc_id_word ids (i + 1))
            else alloc_id_word ids (i + 1))
      else None)" by (rule alloc_id_word.simps)
  have i4: "i < 4" using "1.prems" unfolding unf by (simp add: PUTIMER_RES_MULTIPLIER_def split: if_splits)
  then have iM: "i < PUTIMER_RES_MULTIPLIER" by (simp add: PUTIMER_RES_MULTIPLIER_def)
  show ?case
  proof (cases "ids i \<noteq> 0xffffffff \<and> alloc_id_bit (ids i) 0 1 \<noteq> None")
    case True
    then obtain j m where jm: "alloc_id_bit (ids i) 0 1 = Some (j, m)" by auto
    from alloc_id_bit_Some [OF _ this]
    have b: "j < 32" "m = 2 ^ j" "\<not> bit (ids i) j" "\<forall>l. l < j \<longrightarrow> bit (ids i) l" by simp_all
    from "1.prems" True jm iM have r: "ids' = ids(i := ids i OR m)" "usID' = of_nat (j + i * 32)"
      unfolding unf by simp_all
    let ?k = "j + i * 32"
    have d: "?k div 32 = i" "?k mod 32 = j" using b(1) by simp_all
    have "\<forall>l. i * 32 \<le> l \<and> l < ?k \<longrightarrow> id_bit ids l"
    proof (intro allI impI)
      fix l assume a: "i * 32 \<le> l \<and> l < ?k"
      define r where "r = l - i * 32"
      have lr: "l = i * 32 + r" "r < j" using a unfolding r_def by linarith+
      then have "r < 32" using b(1) by simp
      then have "l div 32 = i" "l mod 32 < j" using lr by simp_all
      then show "id_bit ids l" using b(4) by (simp add: id_bit_def)
    qed
    moreover have "\<not> id_bit ids ?k" using b(3) d by (simp add: id_bit_def)
    moreover have "?k < 128" using b(1) i4 by simp
    ultimately show ?thesis using r b(2) d by (intro exI [of _ ?k]) simp
  next
    case False
    then have rec: "alloc_id_word ids (i + 1) = Some (ids', usID')"
      using "1.prems" iM unfolding unf by (auto split: option.splits)
    have full: "\<forall>l<32. bit (ids i) l"
    proof (cases "ids i = 0xffffffff")
      case True
      then show ?thesis using word32_full by metis
    next
      case f: False
      with False have "alloc_id_bit (ids i) 0 1 = None" by (cases "alloc_id_bit (ids i) 0 1") auto
      from alloc_id_bit_None [OF _ this] show ?thesis by simp
    qed
    have "\<exists>k. (i + 1) * 32 \<le> k \<and> k < 128 \<and> usID' = of_nat k \<and> \<not> id_bit ids k \<and>
         (\<forall>l. (i + 1) * 32 \<le> l \<and> l < k \<longrightarrow> id_bit ids l) \<and>
         ids' = ids(k div 32 := ids (k div 32) OR 2 ^ (k mod 32))"
    proof (cases "ids i = 0xffffffff")
      case True
      then have "\<not> ids i \<noteq> 0xffffffff" by simp
      from "1.IH"(2) [OF iM this rec] show ?thesis .
    next
      case f: False
      with False have n: "alloc_id_bit (ids i) 0 1 = None" by (cases "alloc_id_bit (ids i) 0 1") auto
      from "1.IH"(1) [OF iM f n rec] show ?thesis .
    qed
    then obtain k where k: "(i + 1) * 32 \<le> k" "k < 128" "usID' = of_nat k" "\<not> id_bit ids k"
         "\<forall>l. (i + 1) * 32 \<le> l \<and> l < k \<longrightarrow> id_bit ids l"
         "ids' = ids(k div 32 := ids (k div 32) OR 2 ^ (k mod 32))" by blast
    have "\<forall>l. i * 32 \<le> l \<and> l < k \<longrightarrow> id_bit ids l"
    proof (intro allI impI)
      fix l assume a: "i * 32 \<le> l \<and> l < k"
      show "id_bit ids l"
      proof (cases "(i + 1) * 32 \<le> l")
        case True
        then show ?thesis using k(5) a by simp
      next
        case False
        then have "l div 32 = i" using a by (intro div32_eq) simp_all
        then show ?thesis using full by (simp add: id_bit_def)
      qed
    qed
    then show ?thesis using k by (intro exI [of _ k]) simp
  qed
qed

lemma alloc_id_word_None:
  "alloc_id_word ids i = None \<Longrightarrow> \<forall>l. i * 32 \<le> l \<and> l < 128 \<longrightarrow> id_bit ids l"
proof (induction ids i rule: alloc_id_word.induct)
  case (1 ids i)
  have unf: "alloc_id_word ids i =
     (if i < PUTIMER_RES_MULTIPLIER
      then (if ids i \<noteq> 0xffffffff
            then (case alloc_id_bit (ids i) 0 1 of
                    Some (j, uiMask) \<Rightarrow> Some (ids(i := ids i OR uiMask), of_nat (j + i * 32))
                  | None \<Rightarrow> alloc_id_word ids (i + 1))
            else alloc_id_word ids (i + 1))
      else None)" by (rule alloc_id_word.simps)
  show ?case
  proof (cases "i < 4")
    case False
    then show ?thesis by auto
  next
    case True
    then have iM: "i < PUTIMER_RES_MULTIPLIER" by (simp add: PUTIMER_RES_MULTIPLIER_def)
    have full: "\<forall>l<32. bit (ids i) l" and rec: "alloc_id_word ids (i + 1) = None"
    proof -
      show "\<forall>l<32. bit (ids i) l"
      proof (cases "ids i = 0xffffffff")
        case True
        then show ?thesis using word32_full by metis
      next
        case f: False
        with "1.prems" iM have "alloc_id_bit (ids i) 0 1 = None"
          unfolding unf by (cases "alloc_id_bit (ids i) 0 1") auto
        from alloc_id_bit_None [OF _ this] show ?thesis by simp
      qed
      show "alloc_id_word ids (i + 1) = None"
        using "1.prems" iM unfolding unf by (auto split: option.splits if_splits)
    qed
    have ih: "\<forall>l. (i + 1) * 32 \<le> l \<and> l < 128 \<longrightarrow> id_bit ids l"
    proof (cases "ids i = 0xffffffff")
      case True
      then have "\<not> ids i \<noteq> 0xffffffff" by simp
      from "1.IH"(2) [OF iM this rec] show ?thesis .
    next
      case f: False
      with "1.prems" iM have n: "alloc_id_bit (ids i) 0 1 = None"
        unfolding unf by (cases "alloc_id_bit (ids i) 0 1") auto
      from "1.IH"(1) [OF iM f n rec] show ?thesis .
    qed
    show ?thesis
    proof (intro allI impI)
      fix l assume a: "i * 32 \<le> l \<and> l < 128"
      show "id_bit ids l"
      proof (cases "(i + 1) * 32 \<le> l")
        case True
        then show ?thesis using ih a by simp
      next
        case False
        then have "l div 32 = i" using a by (intro div32_eq) simp_all
        then show ?thesis using full by (simp add: id_bit_def)
      qed
    qed
  qed
qed

text \<open>\<open>putimer_alloc_id\<close> takes the lowest clear bit, if the bitmap has one.\<close>

lemma putimer_alloc_id_free:
  assumes "k < 128" "\<not> id_bit ids k" "\<forall>l<k. id_bit ids l"
  shows "putimer_alloc_id dbg ids =
           Inr (ids(k div 32 := ids (k div 32) OR 2 ^ (k mod 32)), of_nat k)"
proof (cases "alloc_id_word ids 0")
  case None
  from alloc_id_word_None [OF this] assms show ?thesis by simp
next
  case (Some r)
  obtain ids' u where r: "r = (ids', u)" by (cases r)
  from alloc_id_word_Some [OF Some [unfolded r]]
  obtain k' where k': "k' < 128" "u = of_nat k'" "\<not> id_bit ids k'" "\<forall>l. l < k' \<longrightarrow> id_bit ids l"
     "ids' = ids(k' div 32 := ids (k' div 32) OR 2 ^ (k' mod 32))" by auto
  have "k' = k" using k'(3,4) assms(2,3) by (meson linorder_neqE_nat)
  then show ?thesis using Some r k' by (simp add: putimer_alloc_id_def)
qed

lemma putimer_alloc_id_full:
  assumes "\<forall>l<128. id_bit ids l"
  shows "putimer_alloc_id dbg ids = (if dbg then Inl AssertFailed else Inr (ids, 0xffff))"
proof (cases "alloc_id_word ids 0")
  case None
  then show ?thesis by (simp add: putimer_alloc_id_def)
next
  case (Some r)
  obtain ids' u where r: "r = (ids', u)" by (cases r)
  from alloc_id_word_Some [OF Some [unfolded r]] assms show ?thesis by auto
qed

lemma putimer_free_id_ok:
  "unat usId < 128 \<Longrightarrow>
     putimer_free_id dbg usId ids =
       Inr (ids(unat usId div 32 := ids (unat usId div 32) AND NOT (push_bit (unat usId - unat usId div 32 * 32) 1)))"
  by (simp add: putimer_free_id_def max_resources_128 PUTIMER_RES_MULTIPLIER_def Let_def)

section \<open>Handles and creation\<close>

lemma rolled_tag_nonzero: "rolled_tag r \<noteq> 0"
  by (simp add: rolled_tag_def)

lemma hnd_add_or: "PUTIMER_HND_CREATE idx tag = push_bit 16 (ucast idx) OR ucast tag"
  unfolding PUTIMER_HND_CREATE_def
  by (rule disjunctive_add_eq_or, rule bit_eqI) (auto simp add: bit_simps dest: bit_imp_le_length)

lemma hnd_get_idx: "PUTIMER_HND_GET_IDX (PUTIMER_HND_CREATE idx tag) = idx"
  unfolding hnd_add_or PUTIMER_HND_GET_IDX_def
  by (rule bit_eqI) (auto simp add: bit_simps dest: bit_imp_le_length)

lemma hnd_get_tag: "PUTIMER_HND_GET_TAG (PUTIMER_HND_CREATE idx tag) = tag"
proof -
  have m: "(0x000ffff :: 64 word) = mask 16" by (simp add: mask_eq_exp_minus_1)
  show ?thesis
    unfolding hnd_add_or PUTIMER_HND_GET_TAG_def m
    by (rule bit_eqI) (auto simp add: bit_simps dest: bit_imp_le_length)
qed

lemma hnd_nonzero: "tag \<noteq> 0 \<Longrightarrow> PUTIMER_HND_CREATE idx tag \<noteq> 0"
  using hnd_get_tag [of idx tag] by (auto simp add: PUTIMER_HND_GET_TAG_def)

lemma unat_of_nat_128: "k < 128 \<Longrightarrow> unat (of_nat k :: 16 word) = k"
  by (simp add: unat_of_nat)


lemma putimer_create_local_success:
  assumes "iIsInit s" "fctCallback = Some f"
    "enType' = PUTIMER_TYPE_SINGLESHOT \<or> enType' = PUTIMER_TYPE_PERIODIC"
    "unat (uiAllocatedTimers s) < PUTIMER_MAX_RESOURCES"
    "k < 128" "\<not> id_bit (pTimerId s) k" "\<forall>l<k. id_bit (pTimerId s) l"
    "dbg \<longrightarrow> usTag (pTimerList s k) = 0"
  shows "putimer_create_local dbg enType' fctCallback ms ck lk s =
     Inr (PUTIMER_HND_CREATE (of_nat k) (rolled_tag (usRollingTag s)),
          s\<lparr>pTimerId := (pTimerId s)(k div 32 := pTimerId s (k div 32) OR 2 ^ (k mod 32)),
            usRollingTag := rolled_tag (usRollingTag s),
            uiAllocatedTimers := uiAllocatedTimers s + 1,
            pTimerList := (pTimerList s)(k := (pTimerList s k)
               \<lparr>usID := of_nat k, usTag := rolled_tag (usRollingTag s), enType := enType',
                pFct := fctCallback, pCookie := ck,
                uiPeriodMs := (if ms < PUTIMER_MIN_TIMEOUT then PUTIMER_MIN_TIMEOUT else ms),
                enState := PUTIMER_STATE_IDLE, iUseAbsTime := False, pNext := None,
                bLockable := lk\<rparr>)\<rparr>)"
  using assms(1-5,8)
  by (auto simp add: putimer_create_local_def putimer_alloc_id_free [OF assms(5-7)]
      unat_of_nat_128 max_resources_128 rolled_tag_def Let_def)


section \<open>The pending queue: properties\<close>

lemma queue_seg_append:
  "queue_seg pool p (xs @ ys) q = (\<exists>r. queue_seg pool p xs r \<and> queue_seg pool r ys q)"
  by (induction xs arbitrary: p) auto

lemma queue_seg_cong:
  "(\<And>x. x \<in> set xs \<Longrightarrow> pNext (pool' x) = pNext (pool x)) \<Longrightarrow>
     queue_seg pool' p xs q = queue_seg pool p xs q"
  by (induction xs arbitrary: p) auto

lemma queue_seg_fun:
  "queue_seg pool p xs None \<Longrightarrow> queue_seg pool p ys None \<Longrightarrow> xs = ys"
proof (induction xs arbitrary: p ys)
  case Nil
  then show ?case by (cases ys) auto
next
  case (Cons x xs)
  then show ?case by (cases ys) auto
qed

lemma queue_seg_not_in_tail:
  assumes "queue_seg pool (Some x) (x # xs) None"
  shows "x \<notin> set xs"
proof
  assume "x \<in> set xs"
  then obtain as bs where s: "xs = as @ x # bs" by (auto simp add: in_set_conv_decomp)
  have "queue_seg pool (Some x) ((x # as) @ x # bs) None" using assms s by simp
  then obtain r where r: "queue_seg pool (Some x) (x # as) r" "queue_seg pool r (x # bs) None"
    unfolding queue_seg_append by blast
  then have "queue_seg pool (Some x) (x # bs) None" by simp
  from queue_seg_fun [OF assms this] s show False by simp
qed

lemma queue_seg_distinct: "queue_seg pool p xs None \<Longrightarrow> distinct xs"
proof (induction xs arbitrary: p)
  case Nil
  then show ?case by simp
next
  case (Cons x xs)
  then have "queue_seg pool (Some x) (x # xs) None" by simp
  from queue_seg_not_in_tail [OF this] Cons show ?case by auto
qed

lemma queue_seg_ptr: "queue_seg pool p xs None \<Longrightarrow> p = ptr_of xs"
  by (cases xs) (auto simp add: ptr_of_def)

lemma queue_length_bound:
  assumes "queue_seg pool p xs None" "\<forall>x\<in>set xs. x < PUTIMER_MAX_RESOURCES"
  shows "length xs \<le> PUTIMER_MAX_RESOURCES"
proof -
  have "distinct xs" using assms(1) by (rule queue_seg_distinct)
  then have "length xs = card (set xs)" by (simp add: distinct_card)
  also have "\<dots> \<le> card {..<PUTIMER_MAX_RESOURCES}"
    by (rule card_mono) (use assms(2) in auto)
  finally show ?thesis by simp
qed

text \<open>The walk of \<open>putimer_add\<close> over a queue stops behind the entries due by \<open>te\<close>.\<close>

lemma add_walk_queue:
  "queue_seg pool p xs None \<Longrightarrow>
     add_walk pool te pPrev p =
       Some (if takeWhile (due_by pool te) xs = [] then pPrev
             else Some (last (takeWhile (due_by pool te) xs)),
             ptr_of (dropWhile (due_by pool te) xs))"
proof (induction xs arbitrary: p pPrev)
  case Nil
  then show ?case by (subst add_walk.simps) (simp add: ptr_of_def)
next
  case (Cons x xs)
  then have p: "p = Some x" and q: "queue_seg pool (pNext (pool x)) xs None" by simp_all
  show ?case
  proof (cases "due_by pool te x")
    case True
    then have "\<not> timespec_is_a_after_b (tsEnd (pool x)) te" by (simp add: due_by_def)
    then show ?thesis using Cons.IH [OF q, of "Some x"] p True
      by (subst add_walk.simps) simp
  next
    case False
    then have "timespec_is_a_after_b (tsEnd (pool x)) te" by (simp add: due_by_def)
    then show ?thesis using p False
      by (subst add_walk.simps) (simp add: ptr_of_def)
  qed
qed


lemma after_iff:
  "timespec_is_a_after_b a b =
     (tv_sec b < tv_sec a \<or> (tv_sec a = tv_sec b \<and> tv_nsec b < tv_nsec a))"
  by (auto simp add: timespec_is_a_after_b_def Let_def)

lemma after_trans1:
  "timespec_is_a_after_b b a \<Longrightarrow> \<not> timespec_is_a_after_b b c \<Longrightarrow> timespec_is_a_after_b c a"
  by (auto simp add: after_iff)

lemma not_after_trans:
  "\<not> timespec_is_a_after_b a b \<Longrightarrow> \<not> timespec_is_a_after_b b c \<Longrightarrow> \<not> timespec_is_a_after_b a c"
  by (auto simp add: after_iff)

lemma after_not_sym: "timespec_is_a_after_b a b \<Longrightarrow> \<not> timespec_is_a_after_b b a"
  by (auto simp add: after_iff)

lemma queue_insert:
  assumes q: "queue_seg pool p (ys @ zs) None"
    and nin: "t \<notin> set (ys @ zs)"
    and t: "pNext (pool' t) = ptr_of zs"
    and l: "ys \<noteq> [] \<Longrightarrow> pNext (pool' (last ys)) = Some t"
    and frame: "\<And>x. x \<noteq> t \<Longrightarrow> ys = [] \<or> x \<noteq> last ys \<Longrightarrow> pNext (pool' x) = pNext (pool x)"
  shows "queue_seg pool' (if ys = [] then Some t else p) (ys @ t # zs) None"
proof -
  have d: "distinct (ys @ zs)" using q by (rule queue_seg_distinct)
  from q obtain r where r: "queue_seg pool p ys r" "queue_seg pool r zs None"
    unfolding queue_seg_append by blast
  have rz: "r = ptr_of zs" using r(2) by (rule queue_seg_ptr)
  have zs': "queue_seg pool' (ptr_of zs) zs None"
  proof -
    have "queue_seg pool' r zs None = queue_seg pool r zs None"
    proof (rule queue_seg_cong)
      fix x assume x: "x \<in> set zs"
      then have "x \<noteq> t" using nin by auto
      moreover have "ys = [] \<or> x \<noteq> last ys"
      proof (cases "ys = []")
        case False
        then have "last ys \<in> set ys" by simp
        then have "last ys \<notin> set zs" using d by auto
        then show ?thesis using x by auto
      qed simp
      ultimately show "pNext (pool' x) = pNext (pool x)" by (rule frame)
    qed
    then show ?thesis using r(2) rz by simp
  qed
  show ?thesis
  proof (cases "ys = []")
    case True
    then show ?thesis using zs' t by simp
  next
    case False
    then obtain ys' l' where ys: "ys = ys' @ [l']" by (metis rev_exhaust)
    from r(1) have "queue_seg pool p (ys' @ [l']) r" unfolding ys .
    then obtain r' where r': "queue_seg pool p ys' r'" "queue_seg pool r' [l'] r"
      unfolding queue_seg_append by blast
    then have r'l: "r' = Some l'" by simp
    have "queue_seg pool' p ys' r' = queue_seg pool p ys' r'"
    proof (rule queue_seg_cong)
      fix x assume x: "x \<in> set ys'"
      then have "x \<noteq> t" using nin ys by auto
      moreover have "x \<noteq> last ys" using d x ys by auto
      ultimately show "pNext (pool' x) = pNext (pool x)" by (intro frame) simp_all
    qed
    then have a: "queue_seg pool' p ys' (Some l')" using r'(1) r'l by simp
    have b: "queue_seg pool' (Some l') (l' # t # zs) None"
      using l [OF False] ys t zs' by simp
    have "queue_seg pool' p (ys' @ l' # t # zs) None"
      unfolding queue_seg_append using a b by blast
    then show ?thesis using False ys by simp
  qed
qed

lemma due_by_cong: "tsEnd (pool' x) = tsEnd (pool x) \<Longrightarrow> due_by pool' te x = due_by pool te x"
  by (simp add: due_by_def)

lemma takeWhile_due_cong:
  "(\<And>x. x \<in> set xs \<Longrightarrow> tsEnd (pool' x) = tsEnd (pool x)) \<Longrightarrow>
     takeWhile (due_by pool' te) xs = takeWhile (due_by pool te) xs"
  by (rule takeWhile_cong) (simp_all add: due_by_def)

lemma dropWhile_due_cong:
  "(\<And>x. x \<in> set xs \<Longrightarrow> tsEnd (pool' x) = tsEnd (pool x)) \<Longrightarrow>
     dropWhile (due_by pool' te) xs = dropWhile (due_by pool te) xs"
  by (rule dropWhile_cong) (simp_all add: due_by_def)

lemma sorted_dropWhile_not_due:
  assumes "queue_sorted pool xs"
  shows "\<forall>z\<in>set (dropWhile (due_by pool te) xs). \<not> due_by pool te z"
proof (cases "dropWhile (due_by pool te) xs")
  case Nil
  then show ?thesis by (simp del: dropWhile_eq_Nil_conv)
next
  case (Cons z0 zs)
  have z0: "\<not> due_by pool te z0" using Cons by (metis hd_dropWhile list.distinct(1) list.sel(1))
  have "sorted_wrt (\<lambda>a b. due_by pool (tsEnd (pool b)) a) (takeWhile (due_by pool te) xs @ z0 # zs)"
    using assms Cons by (metis queue_sorted_def takeWhile_dropWhile_id)
  then have le: "\<forall>z\<in>set zs. due_by pool (tsEnd (pool z)) z0"
    by (simp add: sorted_wrt_append)
  show ?thesis
  proof
    fix z assume "z \<in> set (dropWhile (due_by pool te) xs)"
    then consider "z = z0" | "z \<in> set zs" using Cons by auto
    then show "\<not> due_by pool te z"
    proof cases
      case 1
      then show ?thesis using z0 by simp
    next
      case 2
      then have "due_by pool (tsEnd (pool z)) z0" using le by simp
      then show ?thesis using z0 unfolding due_by_def by (meson after_trans1)
    qed
  qed
qed

lemma queue_sorted_insert:
  assumes srt: "queue_sorted pool (ys @ zs)"
    and ends: "\<And>x. x \<in> set (ys @ zs) \<Longrightarrow> tsEnd (pool' x) = tsEnd (pool x)"
    and ys: "\<forall>y\<in>set ys. due_by pool (tsEnd (pool' t)) y"
    and zs: "\<forall>z\<in>set zs. \<not> due_by pool (tsEnd (pool' t)) z"
  shows "queue_sorted pool' (ys @ t # zs)"
proof -
  have a: "sorted_wrt (\<lambda>a b. due_by pool' (tsEnd (pool' b)) a) (ys @ zs)"
  proof (rule sorted_wrt_mono_rel)
    show "sorted_wrt (\<lambda>a b. due_by pool (tsEnd (pool b)) a) (ys @ zs)"
      using srt by (simp add: queue_sorted_def)
  next
    fix x y assume "x \<in> set (ys @ zs)" "y \<in> set (ys @ zs)" "due_by pool (tsEnd (pool y)) x"
    then show "due_by pool' (tsEnd (pool' y)) x" using ends by (simp add: due_by_def)
  qed
  have b: "\<forall>y\<in>set ys. due_by pool' (tsEnd (pool' t)) y"
    using ys ends by (simp add: due_by_def)
  have c: "\<forall>z\<in>set zs. due_by pool' (tsEnd (pool' z)) t"
  proof
    fix z assume z: "z \<in> set zs"
    then have "timespec_is_a_after_b (tsEnd (pool z)) (tsEnd (pool' t))" using zs by (simp add: due_by_def)
    then have "\<not> timespec_is_a_after_b (tsEnd (pool' t)) (tsEnd (pool z))" by (rule after_not_sym)
    then show "due_by pool' (tsEnd (pool' z)) t" using ends z by (simp add: due_by_def)
  qed
  show ?thesis
    unfolding queue_sorted_def using a b c by (auto simp add: sorted_wrt_append)
qed

lemma putimer_add_result:
  fixes tsNow :: timespec
  assumes idle: "enState (pTimerList s t) = PUTIMER_STATE_IDLE"
    and q: "pending_queue s xs"
    and nin: "t \<notin> set xs"
  defines "pool1 \<equiv> (pTimerList s)(t := (if iUseAbsTime (pTimerList s t)
                   then (pTimerList s t)\<lparr>iUseAbsTime := False\<rparr>
                   else (pTimerList s t)\<lparr>tsEnd := timespec_add_ms tsNow (uiPeriodMs (pTimerList s t))\<rparr>))"
  defines "ys \<equiv> takeWhile (due_by (pTimerList s) (arm_time tsNow (pTimerList s t))) xs"
  defines "zs \<equiv> dropWhile (due_by (pTimerList s) (arm_time tsNow (pTimerList s t))) xs"
  defines "pool2 \<equiv> (if ys = [] then pool1 else pool1(last ys := (pool1 (last ys))\<lparr>pNext := Some t\<rparr>))"
  shows "putimer_add t tsNow s =
          Inr (if ys = [] then 1 else 0,
               s\<lparr>pQueue := (if ys = [] then Some t else pQueue s),
                 pTimerList := pool2(t := (pool2 t)\<lparr>pNext := ptr_of zs, enState := PUTIMER_STATE_WAITING\<rparr>)\<rparr>)"
proof -
  have te: "tsEnd (pool1 t) = arm_time tsNow (pTimerList s t)"
    by (simp add: pool1_def arm_time_def)
  have q1: "queue_seg pool1 (pQueue s) xs None"
  proof -
    have "queue_seg pool1 (pQueue s) xs None = queue_seg (pTimerList s) (pQueue s) xs None"
      by (rule queue_seg_cong) (use nin in \<open>auto simp add: pool1_def\<close>)
    then show ?thesis using q by (simp add: pending_queue_def)
  qed
  have tk: "takeWhile (due_by pool1 (tsEnd (pool1 t))) xs = ys"
    unfolding ys_def te by (rule takeWhile_due_cong) (use nin in \<open>auto simp add: pool1_def\<close>)
  have dr: "dropWhile (due_by pool1 (tsEnd (pool1 t))) xs = zs"
    unfolding zs_def te by (rule dropWhile_due_cong) (use nin in \<open>auto simp add: pool1_def\<close>)
  have walk: "add_walk pool1 (tsEnd (pool1 t)) None (pQueue s) =
     Some (if ys = [] then None else Some (last ys), ptr_of zs)"
    using add_walk_queue [OF q1, of "tsEnd (pool1 t)" None] by (simp add: tk dr)
  have p1: "(if iUseAbsTime (pTimerList s t)
                   then (pTimerList s)(t := (pTimerList s t)\<lparr>iUseAbsTime := False\<rparr>)
                   else (pTimerList s)(t := (pTimerList s t)\<lparr>tsEnd := timespec_add_ms tsNow (uiPeriodMs (pTimerList s t))\<rparr>)) = pool1"
    by (simp add: pool1_def)
  show ?thesis
    unfolding putimer_add_def Let_def p1
    using idle by (simp add: walk pool2_def)
qed

text \<open>
  \<open>putimer_add\<close> on an idle slot that is not queued, with a queue \<open>xs\<close> sorted by
  \<open>timespec_is_a_after_b\<close>: the call returns; the queue becomes \<open>ys @ t # zs\<close> where
  \<open>xs = ys @ zs\<close>, no entry of \<open>ys\<close> is after the new entry and every entry of \<open>zs\<close>
  is, both by \<open>timespec_is_a_after_b\<close>; the slot is waiting; the result is non-zero exactly
  when the new entry is the head; the other slots change in \<open>pNext\<close> at most. The
  comparison is lexicographic on \<open>(tv_sec, tv_nsec)\<close>: it is the order of time between
  values with \<open>tv_nsec\<close> below one second only (\<open>after_iff_ns\<close>).
\<close>

lemma putimer_add_inserts_in_order:
  assumes idle: "enState (pTimerList s t) = PUTIMER_STATE_IDLE"
    and q: "pending_queue s xs"
    and nin: "t \<notin> set xs"
    and srt: "queue_sorted (pTimerList s) xs"
  shows "\<exists>r s' ys zs.
      putimer_add t tsNow s = Inr (r, s') \<and>
      tsEnd (pTimerList s' t) = arm_time tsNow (pTimerList s t) \<and>
      xs = ys @ zs \<and>
      (\<forall>y\<in>set ys. due_by (pTimerList s') (tsEnd (pTimerList s' t)) y) \<and>
      (\<forall>z\<in>set zs. \<not> due_by (pTimerList s') (tsEnd (pTimerList s' t)) z) \<and>
      pending_queue s' (ys @ t # zs) \<and>
      queue_sorted (pTimerList s') (ys @ t # zs) \<and>
      enState (pTimerList s' t) = PUTIMER_STATE_WAITING \<and>
      (r \<noteq> 0) = (ys = []) \<and>
      (\<forall>x. x \<noteq> t \<longrightarrow> (pTimerList s' x)\<lparr>pNext := pNext (pTimerList s x)\<rparr> = pTimerList s x) \<and>
      s'\<lparr>pQueue := pQueue s, pTimerList := pTimerList s\<rparr> = s"
proof -
  let ?pool = "pTimerList s"
  let ?te = "arm_time tsNow (?pool t)"
  define pool1 where "pool1 = ?pool(t := (if iUseAbsTime (?pool t)
                   then (?pool t)\<lparr>iUseAbsTime := False\<rparr>
                   else (?pool t)\<lparr>tsEnd := timespec_add_ms tsNow (uiPeriodMs (?pool t))\<rparr>))"
  define ys where "ys = takeWhile (due_by ?pool ?te) xs"
  define zs where "zs = dropWhile (due_by ?pool ?te) xs"
  define pool2 where "pool2 = (if ys = [] then pool1 else pool1(last ys := (pool1 (last ys))\<lparr>pNext := Some t\<rparr>))"
  define pool3 where "pool3 = pool2(t := (pool2 t)\<lparr>pNext := ptr_of zs, enState := PUTIMER_STATE_WAITING\<rparr>)"
  define r :: int where "r = (if ys = [] then 1 else 0)"
  define s' where "s' = s\<lparr>pQueue := (if ys = [] then Some t else pQueue s), pTimerList := pool3\<rparr>"
  have res: "putimer_add t tsNow s = Inr (r, s')"
    using putimer_add_result [OF idle q nin, of tsNow]
    by (simp add: r_def s'_def pool3_def pool2_def pool1_def ys_def zs_def)
  have xs: "xs = ys @ zs" by (simp add: ys_def zs_def)
  have lt: "ys \<noteq> [] \<Longrightarrow> last ys \<noteq> t"
  proof -
    assume "ys \<noteq> []"
    then have "last ys \<in> set ys" by simp
    then show "last ys \<noteq> t" using nin xs by auto
  qed
  have te1: "tsEnd (pool1 t) = ?te" by (simp add: pool1_def arm_time_def)
  have te3: "tsEnd (pool3 t) = ?te" using te1 lt by (auto simp add: pool3_def pool2_def)
  have ends: "\<And>x. x \<noteq> t \<Longrightarrow> tsEnd (pool3 x) = tsEnd (?pool x)"
    by (simp add: pool3_def pool2_def pool1_def)
  have frame: "\<And>x. x \<noteq> t \<Longrightarrow> (pool3 x)\<lparr>pNext := pNext (?pool x)\<rparr> = ?pool x"
    by (simp add: pool3_def pool2_def pool1_def)
  have ys_due: "\<forall>y\<in>set ys. due_by ?pool ?te y"
    unfolding ys_def by (auto dest: set_takeWhileD)
  have zs_due: "\<forall>z\<in>set zs. \<not> due_by ?pool ?te z"
    unfolding zs_def using srt by (rule sorted_dropWhile_not_due)
  have ends_xs: "\<And>x. x \<in> set (ys @ zs) \<Longrightarrow> tsEnd (pool3 x) = tsEnd (?pool x)"
  proof -
    fix x assume "x \<in> set (ys @ zs)"
    then have "x \<noteq> t" using nin xs by auto
    then show "tsEnd (pool3 x) = tsEnd (?pool x)" by (rule ends)
  qed
  have ys_due': "\<forall>y\<in>set ys. due_by pool3 (tsEnd (pool3 t)) y"
    using ys_due ends_xs te3 by (simp add: due_by_def)
  have zs_due': "\<forall>z\<in>set zs. \<not> due_by pool3 (tsEnd (pool3 t)) z"
    using zs_due ends_xs te3 by (simp add: due_by_def)
  have qs: "queue_seg pool3 (if ys = [] then Some t else pQueue s) (ys @ t # zs) None"
  proof (rule queue_insert [where pool = ?pool])
    show "queue_seg ?pool (pQueue s) (ys @ zs) None" using q xs by (simp add: pending_queue_def)
    show "t \<notin> set (ys @ zs)" using nin xs by simp
    show "pNext (pool3 t) = ptr_of zs" by (simp add: pool3_def)
    show "ys \<noteq> [] \<Longrightarrow> pNext (pool3 (last ys)) = Some t"
      using lt by (simp add: pool3_def pool2_def)
    show "\<And>x. x \<noteq> t \<Longrightarrow> ys = [] \<or> x \<noteq> last ys \<Longrightarrow> pNext (pool3 x) = pNext (?pool x)"
      by (auto simp add: pool3_def pool2_def pool1_def)
  qed
  have srt': "queue_sorted pool3 (ys @ t # zs)"
  proof (rule queue_sorted_insert [where pool = ?pool])
    show "queue_sorted ?pool (ys @ zs)" using srt xs by simp
    show "\<And>x. x \<in> set (ys @ zs) \<Longrightarrow> tsEnd (pool3 x) = tsEnd (?pool x)" by (rule ends_xs)
    show "\<forall>y\<in>set ys. due_by ?pool (tsEnd (pool3 t)) y" using ys_due te3 by simp
    show "\<forall>z\<in>set zs. \<not> due_by ?pool (tsEnd (pool3 t)) z" using zs_due te3 by simp
  qed
  have "putimer_add t tsNow s = Inr (r, s') \<and>
      tsEnd (pTimerList s' t) = ?te \<and>
      xs = ys @ zs \<and>
      (\<forall>y\<in>set ys. due_by (pTimerList s') (tsEnd (pTimerList s' t)) y) \<and>
      (\<forall>z\<in>set zs. \<not> due_by (pTimerList s') (tsEnd (pTimerList s' t)) z) \<and>
      pending_queue s' (ys @ t # zs) \<and>
      queue_sorted (pTimerList s') (ys @ t # zs) \<and>
      enState (pTimerList s' t) = PUTIMER_STATE_WAITING \<and>
      (r \<noteq> 0) = (ys = []) \<and>
      (\<forall>x. x \<noteq> t \<longrightarrow> (pTimerList s' x)\<lparr>pNext := pNext (pTimerList s x)\<rparr> = pTimerList s x) \<and>
      s'\<lparr>pQueue := pQueue s, pTimerList := pTimerList s\<rparr> = s"
    using res te3 xs ys_due' zs_due' qs srt' frame
    by (simp add: s'_def pending_queue_def r_def pool3_def)
  then show ?thesis by blast
qed

lemma queue_example_queue: "pending_queue queue_example [0, 1]"
  by (simp add: pending_queue_def queue_example_def)

lemma queue_example_sorted: "queue_sorted (pTimerList queue_example) [0, 1]"
  by (simp add: queue_sorted_def due_by_def queue_example_def timespec_is_a_after_b_def)

lemma putimer_add_inserts_in_order_example:
  "enState (pTimerList queue_example 2) = PUTIMER_STATE_IDLE \<and>
   pending_queue queue_example [0, 1] \<and> 2 \<notin> set [0, 1 :: nat] \<and>
   queue_sorted (pTimerList queue_example) [0, 1] \<and>
   (\<exists>r s' ys zs.
      putimer_add 2 \<lparr>tv_sec = 2, tv_nsec = 0\<rparr> queue_example = Inr (r, s') \<and>
      [0, 1] = ys @ zs \<and>
      (\<forall>y\<in>set ys. due_by (pTimerList s') (tsEnd (pTimerList s' 2)) y) \<and>
      (\<forall>z\<in>set zs. \<not> due_by (pTimerList s') (tsEnd (pTimerList s' 2)) z) \<and>
      pending_queue s' (ys @ 2 # zs) \<and>
      enState (pTimerList s' 2) = PUTIMER_STATE_WAITING \<and>
      (r \<noteq> 0) = (ys = []))"
proof -
  have h1: "enState (pTimerList queue_example 2) = PUTIMER_STATE_IDLE"
    by (simp add: queue_example_def zero_tmr_def)
  have h3: "2 \<notin> set [0, 1 :: nat]" by simp
  from putimer_add_inserts_in_order [OF h1 queue_example_queue h3 queue_example_sorted,
      of "\<lparr>tv_sec = 2, tv_nsec = 0\<rparr>"]
  obtain r s' ys zs where
     "putimer_add 2 \<lparr>tv_sec = 2, tv_nsec = 0\<rparr> queue_example = Inr (r, s')"
     "[0, 1] = ys @ zs"
      "(\<forall>y\<in>set ys. due_by (pTimerList s') (tsEnd (pTimerList s' 2)) y)"
      "(\<forall>z\<in>set zs. \<not> due_by (pTimerList s') (tsEnd (pTimerList s' 2)) z)"
      "pending_queue s' (ys @ 2 # zs)"
      "enState (pTimerList s' 2) = PUTIMER_STATE_WAITING"
      "(r \<noteq> 0) = (ys = [])" by blast
  then show ?thesis using h1 queue_example_queue h3 queue_example_sorted by blast
qed







lemma putimer_remove_idle:
  "enState (pTimerList s t) \<noteq> PUTIMER_STATE_WAITING \<Longrightarrow>
     putimer_remove t tsNow s =
       Inr (0, 0, 0, s\<lparr>pTimerList := (pTimerList s)(t := (pTimerList s t)\<lparr>enState := PUTIMER_STATE_IDLE\<rparr>)\<rparr>)"
  by (simp add: putimer_remove_def Let_def)





section \<open>The waiter thread: properties\<close>

declare extract_walk.simps [simp del]

lemma mark_fired_Cons:
  "mark_fired (pool(x := (pool x)\<lparr>enState := PUTIMER_STATE_FIRED\<rparr>)) ys = mark_fired pool (x # ys)"
  by (auto simp add: mark_fired_def fun_eq_iff)

lemma mark_fired_Nil: "mark_fired pool [] = pool"
  by (simp add: mark_fired_def)

lemma extract_walk_queue:
  "queue_seg pool p xs None \<Longrightarrow> length pCallList + length xs \<le> PUTIMER_MAX_RESOURCES \<Longrightarrow>
     extract_walk tsNow pool pCallList pPrev p =
       Inr (mark_fired pool (takeWhile (due_by pool tsNow) xs),
            pCallList @ takeWhile (due_by pool tsNow) xs,
            (if takeWhile (due_by pool tsNow) xs = [] then pPrev
             else Some (last (takeWhile (due_by pool tsNow) xs))),
            ptr_of (dropWhile (due_by pool tsNow) xs))"
proof (induction xs arbitrary: pool p pCallList pPrev)
  case Nil
  then show ?case by (subst extract_walk.simps) (simp add: ptr_of_def mark_fired_Nil)
next
  case (Cons x xs)
  then have p: "p = Some x" and q: "queue_seg pool (pNext (pool x)) xs None" by simp_all
  show ?case
  proof (cases "due_by pool tsNow x")
    case False
    then have "timespec_is_a_after_b (tsEnd (pool x)) tsNow" by (simp add: due_by_def)
    then show ?thesis using p False
      by (subst extract_walk.simps) (simp add: ptr_of_def mark_fired_Nil)
  next
    case True
    then have na: "\<not> timespec_is_a_after_b (tsEnd (pool x)) tsNow" by (simp add: due_by_def)
    let ?pool' = "pool(x := (pool x)\<lparr>enState := PUTIMER_STATE_FIRED\<rparr>)"
    have q': "queue_seg ?pool' (pNext (pool x)) xs None"
    proof -
      have "queue_seg ?pool' (pNext (pool x)) xs None = queue_seg pool (pNext (pool x)) xs None"
        by (rule queue_seg_cong) simp
      then show ?thesis using q by simp
    qed
    have len: "length pCallList < PUTIMER_MAX_RESOURCES"
      and len': "length (pCallList @ [x]) + length xs \<le> PUTIMER_MAX_RESOURCES"
      using Cons.prems(2) by simp_all
    have tk: "takeWhile (due_by ?pool' tsNow) xs = takeWhile (due_by pool tsNow) xs"
      by (rule takeWhile_due_cong) simp
    have dr: "dropWhile (due_by ?pool' tsNow) xs = dropWhile (due_by pool tsNow) xs"
      by (rule dropWhile_due_cong) simp
    have unf: "extract_walk tsNow pool pCallList pPrev p =
        extract_walk tsNow ?pool' (pCallList @ [x]) (Some x) (pNext (pool x))"
      using p na len by (subst extract_walk.simps) simp
    show ?thesis
      unfolding unf Cons.IH [OF q' len'] tk dr
      using True by (simp add: mark_fired_Cons)
  qed
qed

lemma sorted_takeWhile_filter:
  assumes "queue_sorted pool xs"
  shows "takeWhile (due_by pool te) xs = filter (due_by pool te) xs"
proof -
  have "filter (due_by pool te) (takeWhile (due_by pool te) xs @ dropWhile (due_by pool te) xs) =
        filter (due_by pool te) (takeWhile (due_by pool te) xs) @
        filter (due_by pool te) (dropWhile (due_by pool te) xs)"
    by (rule filter_append)
  then have "filter (due_by pool te) xs =
        filter (due_by pool te) (takeWhile (due_by pool te) xs) @
        filter (due_by pool te) (dropWhile (due_by pool te) xs)"
    by (simp only: takeWhile_dropWhile_id)
  also have "filter (due_by pool te) (takeWhile (due_by pool te) xs) = takeWhile (due_by pool te) xs"
    by (auto simp add: filter_id_conv dest: set_takeWhileD)
  also have "filter (due_by pool te) (dropWhile (due_by pool te) xs) = []"
    using sorted_dropWhile_not_due [OF assms, of te] by (simp add: filter_empty_conv)
  finally show ?thesis by simp
qed

lemma putimer_thread_extract_result:
  fixes tsNow :: timespec
  assumes q: "pending_queue s xs"
    and bound: "\<forall>x\<in>set xs. x < PUTIMER_MAX_RESOURCES"
    and alive: "\<not> iKillThread s"
  defines "ys \<equiv> takeWhile (due_by (pTimerList s) tsNow) xs"
  defines "zs \<equiv> dropWhile (due_by (pTimerList s) tsNow) xs"
  shows "putimer_thread_extract tsNow s =
     Inr (ys, if ys = [] then s
              else s\<lparr>pQueue := ptr_of zs,
                     pTimerList := (mark_fired (pTimerList s) ys)
                        (last ys := (mark_fired (pTimerList s) ys (last ys))\<lparr>pNext := None\<rparr>)\<rparr>)"
proof -
  have qs: "queue_seg (pTimerList s) (pQueue s) xs None" using q by (simp add: pending_queue_def)
  have "length xs \<le> PUTIMER_MAX_RESOURCES" using qs bound by (rule queue_length_bound)
  then have len: "length ([] :: nat list) + length xs \<le> PUTIMER_MAX_RESOURCES" by simp
  show ?thesis
    unfolding putimer_thread_extract_def extract_walk_queue [OF qs len]
    using alive by (simp add: ys_def zs_def mark_fired_Nil)
qed

text \<open>
  C3. One extraction pass of the waiter over a sorted queue \<open>xs\<close> of pool slots, at
  clock reading \<open>tsNow\<close>: the call list is the longest prefix of \<open>xs\<close> due by
  \<open>tsNow\<close>, in queue order, which holds every due entry; its slots are marked fired;
  the queue is the rest, whose slots and every other slot are untouched; an extracted
  slot changes in \<open>enState\<close> and \<open>pNext\<close> at most.
\<close>

theorem putimer_thread_extract_spec:
  assumes q: "pending_queue s xs"
    and bound: "\<forall>x\<in>set xs. x < PUTIMER_MAX_RESOURCES"
    and srt: "queue_sorted (pTimerList s) xs"
    and alive: "\<not> iKillThread s"
  shows "\<exists>pCallList rest s'.
     putimer_thread_extract tsNow s = Inr (pCallList, s') \<and>
     xs = pCallList @ rest \<and>
     pCallList = takeWhile (due_by (pTimerList s) tsNow) xs \<and>
     pCallList = filter (due_by (pTimerList s) tsNow) xs \<and>
     (\<forall>x\<in>set pCallList. due_by (pTimerList s) tsNow x \<and>
                         enState (pTimerList s' x) = PUTIMER_STATE_FIRED) \<and>
     (\<forall>z\<in>set rest. \<not> due_by (pTimerList s) tsNow z) \<and>
     pending_queue s' rest \<and>
     pQueue s' = ptr_of rest \<and>
     (\<forall>x. x \<notin> set pCallList \<longrightarrow> pTimerList s' x = pTimerList s x) \<and>
     (\<forall>x. (pTimerList s' x)\<lparr>enState := enState (pTimerList s x), pNext := pNext (pTimerList s x)\<rparr>
            = pTimerList s x) \<and>
     s'\<lparr>pQueue := pQueue s, pTimerList := pTimerList s\<rparr> = s"
proof -
  let ?pool = "pTimerList s"
  define ys where "ys = takeWhile (due_by ?pool tsNow) xs"
  define zs where "zs = dropWhile (due_by ?pool tsNow) xs"
  define pool' where "pool' = (if ys = [] then ?pool
           else (mark_fired ?pool ys)(last ys := (mark_fired ?pool ys (last ys))\<lparr>pNext := None\<rparr>))"
  define s' where "s' = s\<lparr>pQueue := ptr_of zs, pTimerList := pool'\<rparr>"
  have xs: "xs = ys @ zs" by (simp add: ys_def zs_def)
  have qs: "queue_seg ?pool (pQueue s) xs None" using q by (simp add: pending_queue_def)
  have qs': "queue_seg ?pool (pQueue s) (ys @ zs) None" using qs xs by simp
  have d: "distinct (ys @ zs)" using qs' by (rule queue_seg_distinct)
  from qs' obtain r where r: "queue_seg ?pool (pQueue s) ys r" "queue_seg ?pool r zs None"
    unfolding queue_seg_append by blast
  have rz: "r = ptr_of zs" using r(2) by (rule queue_seg_ptr)
  have hd: "ys = [] \<Longrightarrow> pQueue s = ptr_of zs" using r(1) rz by simp
  have res: "putimer_thread_extract tsNow s = Inr (ys, s')"
  proof (cases "ys = []")
    case True
    then have "s' = s" using hd by (simp add: s'_def pool'_def)
    then show ?thesis
      using putimer_thread_extract_result [OF q bound alive, of tsNow] True
      by (simp add: ys_def)
  next
    case False
    then show ?thesis
      using putimer_thread_extract_result [OF q bound alive, of tsNow]
      by (simp add: ys_def zs_def s'_def pool'_def)
  qed
  have ly: "ys \<noteq> [] \<Longrightarrow> last ys \<in> set ys" by simp
  have out: "\<And>x. x \<notin> set ys \<Longrightarrow> pool' x = ?pool x"
    using ly by (auto simp add: pool'_def mark_fired_def)
  have fired: "\<forall>x\<in>set ys. due_by ?pool tsNow x \<and> enState (pool' x) = PUTIMER_STATE_FIRED"
  proof
    fix x assume x: "x \<in> set ys"
    then have "due_by ?pool tsNow x" unfolding ys_def by (auto dest: set_takeWhileD)
    moreover have "enState (pool' x) = PUTIMER_STATE_FIRED"
      using x by (auto simp add: pool'_def mark_fired_def)
    ultimately show "due_by ?pool tsNow x \<and> enState (pool' x) = PUTIMER_STATE_FIRED" by simp
  qed
  have notdue: "\<forall>z\<in>set zs. \<not> due_by ?pool tsNow z"
    unfolding zs_def using srt by (rule sorted_dropWhile_not_due)
  have qz: "queue_seg pool' (ptr_of zs) zs None"
  proof -
    have "queue_seg pool' r zs None = queue_seg ?pool r zs None"
    proof (rule queue_seg_cong)
      fix x assume "x \<in> set zs"
      then have "x \<notin> set ys" using d by auto
      then show "pNext (pool' x) = pNext (?pool x)" using out by simp
    qed
    then show ?thesis using r(2) rz by simp
  qed
  have frame: "\<And>x. (pool' x)\<lparr>enState := enState (?pool x), pNext := pNext (?pool x)\<rparr> = ?pool x"
    by (simp add: pool'_def mark_fired_def)
  have flt: "ys = filter (due_by ?pool tsNow) xs"
    unfolding ys_def using srt by (rule sorted_takeWhile_filter)
  have tkd: "ys = takeWhile (due_by (pTimerList s) tsNow) xs" by (rule ys_def)
  have fired': "\<forall>x\<in>set ys. due_by (pTimerList s) tsNow x \<and>
                         enState (pTimerList s' x) = PUTIMER_STATE_FIRED"
    using fired by (simp add: s'_def)
  have pq: "pending_queue s' zs" using qz by (simp add: s'_def pending_queue_def)
  have hd': "pQueue s' = ptr_of zs" by (simp add: s'_def)
  have out': "\<forall>x. x \<notin> set ys \<longrightarrow> pTimerList s' x = pTimerList s x"
    using out by (simp add: s'_def)
  have frame': "\<forall>x. (pTimerList s' x)\<lparr>enState := enState (pTimerList s x), pNext := pNext (pTimerList s x)\<rparr>
            = pTimerList s x"
    using frame by (simp add: s'_def)
  have rest: "s'\<lparr>pQueue := pQueue s, pTimerList := pTimerList s\<rparr> = s" by (simp add: s'_def)
  have "putimer_thread_extract tsNow s = Inr (ys, s') \<and>
     xs = ys @ zs \<and>
     ys = takeWhile (due_by (pTimerList s) tsNow) xs \<and>
     ys = filter (due_by (pTimerList s) tsNow) xs \<and>
     (\<forall>x\<in>set ys. due_by (pTimerList s) tsNow x \<and>
                         enState (pTimerList s' x) = PUTIMER_STATE_FIRED) \<and>
     (\<forall>z\<in>set zs. \<not> due_by (pTimerList s) tsNow z) \<and>
     pending_queue s' zs \<and>
     pQueue s' = ptr_of zs \<and>
     (\<forall>x. x \<notin> set ys \<longrightarrow> pTimerList s' x = pTimerList s x) \<and>
     (\<forall>x. (pTimerList s' x)\<lparr>enState := enState (pTimerList s x), pNext := pNext (pTimerList s x)\<rparr>
            = pTimerList s x) \<and>
     s'\<lparr>pQueue := pQueue s, pTimerList := pTimerList s\<rparr> = s"
    by (intro conjI res xs tkd flt fired' notdue pq hd' out' frame' rest)
  then show ?thesis by blast
qed

theorem putimer_thread_extract_spec_witness:
  "pending_queue queue_example [0, 1] \<and>
   (0 :: nat) < PUTIMER_MAX_RESOURCES \<and> (1 :: nat) < PUTIMER_MAX_RESOURCES \<and>
   queue_sorted (pTimerList queue_example) [0, 1] \<and>
   \<not> iKillThread queue_example \<and>
   (\<exists>s'. putimer_thread_extract \<lparr>tv_sec = 3, tv_nsec = 0\<rparr> queue_example = Inr ([0], s') \<and>
      enState (pTimerList s' 0) = PUTIMER_STATE_FIRED \<and>
      pending_queue s' [1] \<and>
      pTimerList s' 1 = pTimerList queue_example 1)"
proof -
  let ?now = "\<lparr>tv_sec = 3, tv_nsec = 0\<rparr>"
  have h2: "\<forall>x\<in>set [0, 1 :: nat]. x < PUTIMER_MAX_RESOURCES" by (simp add: max_resources_128)
  have h4: "\<not> iKillThread queue_example" by (simp add: queue_example_def)
  have tk: "takeWhile (due_by (pTimerList queue_example) ?now) [0, 1] = [0]"
    by (simp add: due_by_def queue_example_def timespec_is_a_after_b_def)
  from putimer_thread_extract_spec [OF queue_example_queue h2 queue_example_sorted h4, of ?now]
  obtain pCallList rest s' where c:
    "putimer_thread_extract ?now queue_example = Inr (pCallList, s')"
    "[0, 1] = pCallList @ rest"
    "pCallList = takeWhile (due_by (pTimerList queue_example) ?now) [0, 1]"
    "\<forall>x\<in>set pCallList. due_by (pTimerList queue_example) ?now x \<and>
                         enState (pTimerList s' x) = PUTIMER_STATE_FIRED"
    "pending_queue s' rest"
    "\<forall>x. x \<notin> set pCallList \<longrightarrow> pTimerList s' x = pTimerList queue_example x"
    by blast
  have cl: "pCallList = [0]" using c(3) tk by simp
  then have "rest = [1]" using c(2) by simp
  then have r1: "rest = [1]" .
  have a1: "putimer_thread_extract ?now queue_example = Inr ([0], s')" using c(1) cl by simp
  have a2: "enState (pTimerList s' 0) = PUTIMER_STATE_FIRED" using c(4) cl by simp
  have a3: "pending_queue s' [1]" using c(5) r1 by simp
  have a4: "pTimerList s' 1 = pTimerList queue_example 1" using c(6) cl by simp
  have h2': "(0 :: nat) < PUTIMER_MAX_RESOURCES" "(1 :: nat) < PUTIMER_MAX_RESOURCES"
    by (simp_all add: max_resources_128)
  show ?thesis
    using a1 a2 a3 a4 queue_example_queue h2' queue_example_sorted h4 by blast
qed





lemma id_bit_zero: "\<not> id_bit (\<lambda>_. 0) k"
  by (simp add: id_bit_def)


lemma putimer_init_static:
  "putimer_init dbg 0 0 0 1 static_module = Inr (0, init_module)"
  by (simp add: putimer_init_def init_module_def static_module_def)

lemma putimer_create_init:
  "putimer_create dbg PUTIMER_TYPE_SINGLESHOT (Some 0) 100 0 init_module = Inr (1, one_timer_module)"
proof -
  have a: "unat (uiAllocatedTimers init_module) < PUTIMER_MAX_RESOURCES"
    by (simp add: init_module_def static_module_def max_resources_128)
  have b: "iIsInit init_module" by (simp add: init_module_def static_module_def)
  have c: "dbg \<longrightarrow> usTag (pTimerList init_module 0) = 0"
    by (simp add: init_module_def static_module_def zero_tmr_def)
  have d: "\<not> id_bit (pTimerId init_module) 0"
    by (simp add: init_module_def static_module_def id_bit_zero)
  have e: "PUTIMER_TYPE_SINGLESHOT = PUTIMER_TYPE_SINGLESHOT \<or>
            PUTIMER_TYPE_SINGLESHOT = PUTIMER_TYPE_PERIODIC" by simp
  have f: "(0::nat) < 128" by simp
  have g: "\<forall>l<0::nat. id_bit (pTimerId init_module) l" by simp
  have h: "PUTIMER_HND_CREATE 0 1 = 1" by (simp add: PUTIMER_HND_CREATE_def)
  show ?thesis
    unfolding putimer_create_def
    using putimer_create_local_success [OF b refl e a f d g c, where ms = 100 and ck = 0 and lk = False]
    by (simp add: h one_timer_module_def init_module_def static_module_def rolled_tag_def
         PUTIMER_MIN_TIMEOUT_def zero_tmr_def)
qed

section \<open>Frames: what the queue operations leave alone\<close>

lemma putimer_remove_frame:
  assumes "putimer_remove t tsNow s = Inr (r, a, m, s1)"
  shows "(\<forall>x. (pTimerList s1 x)\<lparr>pNext := pNext (pTimerList s x), enState := enState (pTimerList s x)\<rparr>
               = pTimerList s x) \<and>
         enState (pTimerList s1 t) = PUTIMER_STATE_IDLE \<and>
         (\<forall>x. x \<noteq> t \<longrightarrow> enState (pTimerList s1 x) = enState (pTimerList s x)) \<and>
         s1\<lparr>pQueue := pQueue s, pTimerList := pTimerList s\<rparr> = s"
  using assms
  by (auto simp add: putimer_remove_def Let_def split: if_splits option.splits prod.splits)

lemma putimer_remove_fields:
  assumes "putimer_remove t tsNow s = Inr (r, a, m, s1)"
  shows "usTag (pTimerList s1 x) = usTag (pTimerList s x)"
    and "usID (pTimerList s1 x) = usID (pTimerList s x)"
    and "pTimerId s1 = pTimerId s"
    and "uiAllocatedTimers s1 = uiAllocatedTimers s"
    and "usRollingTag s1 = usRollingTag s"
    and "iIsInit s1 = iIsInit s"
    and "enType (pTimerList s1 x) = enType (pTimerList s x)"
    and "pFct (pTimerList s1 x) = pFct (pTimerList s x)"
    and "bLockable (pTimerList s1 x) = bLockable (pTimerList s x)"
    and "tsEnd (pTimerList s1 x) = tsEnd (pTimerList s x)"
    and "uiPeriodMs (pTimerList s1 x) = uiPeriodMs (pTimerList s x)"
    and "iUseAbsTime (pTimerList s1 x) = iUseAbsTime (pTimerList s x)"
    and "iKillThread s1 = iKillThread s"
    and "pCookie (pTimerList s1 x) = pCookie (pTimerList s x)"
  using assms
  by (auto simp add: putimer_remove_def Let_def split: if_splits option.splits prod.splits)

lemma putimer_add_frame:
  assumes "putimer_add t tsNow s = Inr (r, s1)"
  shows "usTag (pTimerList s1 x) = usTag (pTimerList s x)"
    and "usID (pTimerList s1 x) = usID (pTimerList s x)"
    and "pTimerId s1 = pTimerId s"
    and "uiAllocatedTimers s1 = uiAllocatedTimers s"
    and "usRollingTag s1 = usRollingTag s"
    and "iIsInit s1 = iIsInit s"
    and "enType (pTimerList s1 x) = enType (pTimerList s x)"
    and "pFct (pTimerList s1 x) = pFct (pTimerList s x)"
    and "bLockable (pTimerList s1 x) = bLockable (pTimerList s x)"
    and "uiPeriodMs (pTimerList s1 x) = uiPeriodMs (pTimerList s x)"
    and "iKillThread s1 = iKillThread s"
    and "pCookie (pTimerList s1 x) = pCookie (pTimerList s x)"
    and "x \<noteq> t \<Longrightarrow> enState (pTimerList s1 x) = enState (pTimerList s x)"
    and "x \<noteq> t \<Longrightarrow> tsEnd (pTimerList s1 x) = tsEnd (pTimerList s x)"
  using assms
  by (auto simp add: putimer_add_def Let_def split: if_splits option.splits prod.splits)

section \<open>Deletion and the capacity invariant\<close>

lemma putimer_delete_cases:
  assumes "putimer_delete dbg hnd tsNow s = Inr (r, s')"
  shows "(r = - 1 \<and> s' = s) \<or>
         (r = 0 \<and> unat (PUTIMER_HND_GET_IDX hnd) < 128 \<and>
          PUTIMER_HND_GET_TAG hnd = usTag (pTimerList s (unat (PUTIMER_HND_GET_IDX hnd))) \<and>
          uiAllocatedTimers s \<noteq> 0 \<and>
          unat (usID (pTimerList s (unat (PUTIMER_HND_GET_IDX hnd)))) < 128 \<and>
          (\<exists>u a m s1. putimer_remove (unat (PUTIMER_HND_GET_IDX hnd)) tsNow s = Inr (u, a, m, s1) \<and>
             s' = s1\<lparr>pTimerId := (pTimerId s)
                      (unat (usID (pTimerList s (unat (PUTIMER_HND_GET_IDX hnd)))) div 32 :=
                         pTimerId s (unat (usID (pTimerList s (unat (PUTIMER_HND_GET_IDX hnd)))) div 32)
                         AND NOT (push_bit (unat (usID (pTimerList s (unat (PUTIMER_HND_GET_IDX hnd))))
                            - unat (usID (pTimerList s (unat (PUTIMER_HND_GET_IDX hnd)))) div 32 * 32) 1)),
                    uiAllocatedTimers := uiAllocatedTimers s - 1,
                    pTimerList := (pTimerList s1)
                       (unat (PUTIMER_HND_GET_IDX hnd) :=
                          (pTimerList s1 (unat (PUTIMER_HND_GET_IDX hnd)))\<lparr>usTag := 0\<rparr>)\<rparr>))"
proof -
  let ?i = "unat (PUTIMER_HND_GET_IDX hnd)"
  show ?thesis
  proof (cases "?i < 128 \<and> PUTIMER_HND_GET_TAG hnd = usTag (pTimerList s ?i) \<and> uiAllocatedTimers s \<noteq> 0")
    case False
    then show ?thesis using assms
      by (auto simp add: putimer_delete_def Let_def max_resources_128 split: if_splits)
  next
    case True
    then obtain u a m s1 where rm: "putimer_remove ?i tsNow s = Inr (u, a, m, s1)"
      using assms
      by (cases "putimer_remove ?i tsNow s")
         (auto simp add: putimer_delete_def Let_def max_resources_128 split: if_splits)
    note f = putimer_remove_fields [OF rm]
    have fr: "putimer_free_id dbg (usID (pTimerList s ?i)) (pTimerId s) \<noteq> Inl AssertFailed \<and>
              putimer_free_id dbg (usID (pTimerList s ?i)) (pTimerId s) \<noteq> Inl OutOfBounds \<Longrightarrow>
              unat (usID (pTimerList s ?i)) < 128"
      by (auto simp add: putimer_free_id_def Let_def max_resources_128 PUTIMER_RES_MULTIPLIER_def
          split: if_splits)
    have d: "putimer_delete dbg hnd tsNow s =
       (case putimer_free_id dbg (usID (pTimerList s ?i)) (pTimerId s) of
                       Inl f \<Rightarrow> Inl f
                     | Inr ids \<Rightarrow>
                         Inr (0, s1\<lparr>pTimerId := ids,
                                    uiAllocatedTimers := uiAllocatedTimers s1 - 1,
                                    pTimerList := (pTimerList s1)
                                      (?i := (pTimerList s1 ?i)\<lparr>usTag := 0\<rparr>)\<rparr>))"
      using True rm f(1-4)
      by (simp add: putimer_delete_def Let_def max_resources_128)
    have lt: "unat (usID (pTimerList s ?i)) < 128"
    proof (rule ccontr)
      assume n: "\<not> unat (usID (pTimerList s ?i)) < 128"
      then have "\<exists>e. putimer_free_id dbg (usID (pTimerList s ?i)) (pTimerId s) = Inl e"
        by (auto simp add: putimer_free_id_def Let_def max_resources_128 PUTIMER_RES_MULTIPLIER_def)
      then show False using assms d by auto
    qed
    show ?thesis
      using assms True rm lt f(4) unfolding d putimer_free_id_ok [OF lt]
      by auto
  qed
qed

lemma hnd_50000: "unat (PUTIMER_HND_GET_IDX 0x50000) = 5" "PUTIMER_HND_GET_TAG 0x50000 = 0"
  by (simp_all add: PUTIMER_HND_GET_IDX_def PUTIMER_HND_GET_TAG_def)

lemma delete_unallocated_result:
  "putimer_delete dbg 0x50000 tsNow one_timer_module =
     Inr (0, one_timer_module\<lparr>pTimerId := (\<lambda>_. 0), uiAllocatedTimers := 0\<rparr>)"
proof -
  have rm: "putimer_remove 5 tsNow one_timer_module = Inr (0, 0, 0, one_timer_module)"
  proof -
    have "enState (pTimerList one_timer_module 5) \<noteq> PUTIMER_STATE_WAITING"
      by (simp add: one_timer_module_def zero_tmr_def)
    moreover have "(pTimerList one_timer_module)
        (5 := (pTimerList one_timer_module 5)\<lparr>enState := PUTIMER_STATE_IDLE\<rparr>)
           = pTimerList one_timer_module"
      by (simp add: one_timer_module_def zero_tmr_def fun_eq_iff)
    ultimately show ?thesis by (simp add: putimer_remove_idle)
  qed
  have fr: "putimer_free_id dbg 0 ((\<lambda>_. 0)(0 := 1)) = Inr (\<lambda>_. 0)"
    by (simp add: putimer_free_id_def max_resources_128 PUTIMER_RES_MULTIPLIER_def fun_eq_iff)
  have z: "(pTimerList one_timer_module)(5 := (pTimerList one_timer_module 5)\<lparr>usTag := 0\<rparr>)
           = pTimerList one_timer_module"
    by (simp add: one_timer_module_def zero_tmr_def fun_eq_iff)
  have g: "pTimerId one_timer_module = (\<lambda>_. 0)(0 := 1)" "uiAllocatedTimers one_timer_module = 1"
     "usTag (pTimerList one_timer_module 5) = 0" "usID (pTimerList one_timer_module 5) = 0"
    by (simp_all add: one_timer_module_def init_module_def static_module_def zero_tmr_def)
  show ?thesis
    unfolding putimer_delete_def Let_def hnd_50000
    by (simp add: rm g fr z max_resources_128)
qed

text \<open>
  C8. The claim holds for the handles that \<open>putimer_create\<close> returns, and the code
  breaks it for a handle with tag 0 on a free slot, whose tag is 0 as well: after
  initialisation and one creation (slot 0, tag 1), \<open>putimer_delete\<close> of the handle
  \<open>0x50000\<close> (slot 5, tag 0) passes the tag check, clears bit 0 (the \<open>usID\<close> a slot
  never allocated holds) and decrements the count. Slot 0 is still allocated with
  tag 1, its bit is clear and the count is 0; the next creation in a debug build fails
  \<open>ASSERT( 0 == pTimerList[usID].usTag )\<close>.
\<close>

theorem delete_unallocated_clears_foreign_bit:
  "putimer_init dbg 0 0 0 1 static_module = Inr (0, init_module) \<and>
   putimer_create dbg PUTIMER_TYPE_SINGLESHOT (Some 0) 100 0 init_module = Inr (1, one_timer_module) \<and>
   (\<exists>s'. putimer_delete dbg 0x50000 tsNow one_timer_module = Inr (0, s') \<and>
      usTag (pTimerList s' 0) = 1 \<and> \<not> id_bit (pTimerId s') 0 \<and> uiAllocatedTimers s' = 0 \<and>
      putimer_create True PUTIMER_TYPE_SINGLESHOT (Some 0) 100 0 s' = Inl AssertFailed)"
proof -
  let ?s' = "one_timer_module\<lparr>pTimerId := (\<lambda>_. 0), uiAllocatedTimers := 0\<rparr>"
  have a: "usTag (pTimerList ?s' 0) = 1" by (simp add: one_timer_module_def)
  have b: "\<not> id_bit (pTimerId ?s') 0" by (simp add: id_bit_zero)
  have c: "uiAllocatedTimers ?s' = 0" by simp
  have al: "putimer_alloc_id True (\<lambda>_. 0) = Inr ((\<lambda>_. 0)(0 := 1), 0)"
    using putimer_alloc_id_free [of 0 "\<lambda>_. 0" True] by (simp add: id_bit_zero)
  have d: "putimer_create True PUTIMER_TYPE_SINGLESHOT (Some 0) 100 0 ?s' = Inl AssertFailed"
    by (simp add: putimer_create_def putimer_create_local_def al max_resources_128
        one_timer_module_def init_module_def static_module_def)
  show ?thesis
    using putimer_init_static putimer_create_init delete_unallocated_result a b c d by blast
qed

lemma unat_count_dec: "(c :: 64 word) \<noteq> 0 \<Longrightarrow> unat (c - 1) = unat c - 1"
  by (simp add: unat_minus_one)

lemma card_remove_set:
  assumes "i < 128" "id_bit ids i"
  shows "card {l. l < 128 \<and> l \<noteq> i \<and> id_bit ids l} = card {l. l < 128 \<and> id_bit ids l} - 1"
proof -
  have "{l. l < 128 \<and> l \<noteq> i \<and> id_bit ids l} = {l. l < 128 \<and> id_bit ids l} - {i}" by auto
  moreover have "i \<in> {l. l < 128 \<and> id_bit ids l}" using assms by simp
  ultimately show ?thesis by simp
qed

text \<open>
  \<open>putimer_delete\<close> with a handle of non-zero tag that is accepted keeps the capacity
  invariant: it clears the bit of the slot, zeroes its tag and decrements the count.
\<close>

lemma pool_inv_delete:
  assumes inv: "pool_inv s"
    and del: "putimer_delete dbg hnd tsNow s = Inr (0, s')"
    and nz: "PUTIMER_HND_GET_TAG hnd \<noteq> 0"
  shows "pool_inv s' \<and> usTag (pTimerList s' (unat (PUTIMER_HND_GET_IDX hnd))) = 0 \<and>
         (\<forall>l. id_bit (pTimerId s') l = (l \<noteq> unat (PUTIMER_HND_GET_IDX hnd) \<and> id_bit (pTimerId s) l)) \<and>
         unat (uiAllocatedTimers s') = unat (uiAllocatedTimers s) - 1 \<and>
         id_bit (pTimerId s) (unat (PUTIMER_HND_GET_IDX hnd))"
proof -
  let ?i = "unat (PUTIMER_HND_GET_IDX hnd)"
  from putimer_delete_cases [OF del]
  obtain u a m s1 where
    i: "?i < 128" and tg: "PUTIMER_HND_GET_TAG hnd = usTag (pTimerList s ?i)"
    and c: "uiAllocatedTimers s \<noteq> 0"
    and rm: "putimer_remove ?i tsNow s = Inr (u, a, m, s1)"
    and s': "s' = s1\<lparr>pTimerId := (pTimerId s)
                      (unat (usID (pTimerList s ?i)) div 32 :=
                         pTimerId s (unat (usID (pTimerList s ?i)) div 32)
                         AND NOT (push_bit (unat (usID (pTimerList s ?i))
                            - unat (usID (pTimerList s ?i)) div 32 * 32) 1)),
                    uiAllocatedTimers := uiAllocatedTimers s - 1,
                    pTimerList := (pTimerList s1) (?i := (pTimerList s1 ?i)\<lparr>usTag := 0\<rparr>)\<rparr>"
    by auto
  note f = putimer_remove_fields [OF rm]
  have tnz: "usTag (pTimerList s ?i) \<noteq> 0" using nz tg by simp
  have uid: "unat (usID (pTimerList s ?i)) = ?i"
    using inv i tnz by (simp add: pool_inv_def max_resources_128 unat_of_nat_128)
  have bit_i: "id_bit (pTimerId s) ?i" using inv i tnz by (simp add: pool_inv_def max_resources_128)
  have bits: "\<forall>l. id_bit (pTimerId s') l = (l \<noteq> ?i \<and> id_bit (pTimerId s) l)"
    unfolding s' uid using id_bit_clear [of "pTimerId s" ?i] by simp
  have tags: "\<forall>l. usTag (pTimerList s' l) = (if l = ?i then 0 else usTag (pTimerList s l))"
    by (simp add: s' f)
  have ids: "\<forall>l. usID (pTimerList s' l) = usID (pTimerList s l)" by (simp add: s' f)
  have cnt: "unat (uiAllocatedTimers s') = unat (uiAllocatedTimers s) - 1"
    using c by (simp add: s' unat_count_dec)
  have card: "card {l. l < 128 \<and> id_bit (pTimerId s') l} = card {l. l < 128 \<and> id_bit (pTimerId s) l} - 1"
    using bits card_remove_set [OF i bit_i] by simp
  have "pool_inv s'"
    unfolding pool_inv_def max_resources_128
    using inv cnt card bits tags ids by (simp add: pool_inv_def max_resources_128)
  then show ?thesis using tags bits cnt bit_i by simp
qed

section \<open>Runs of the module\<close>

lemma extract_walk_fields:
  "extract_walk tsNow pool cl pPrev pCurr = Inr (pool', cl', pPrev', pCurr') \<Longrightarrow>
     (pool' x)\<lparr>enState := enState (pool x)\<rparr> = pool x"
proof (induction tsNow pool cl pPrev pCurr arbitrary: x rule: extract_walk.induct)
  case (1 tsNow pool pCallList pPrev pCurr)
  show ?case
  proof (cases pCurr)
    case None
    then show ?thesis using "1.prems" by (subst (asm) extract_walk.simps) auto
  next
    case (Some c)
    show ?thesis
    proof (cases "\<not> timespec_is_a_after_b (tsEnd (pool c)) tsNow \<and> length pCallList < PUTIMER_MAX_RESOURCES")
      case True
      let ?pool1 = "pool(c := (pool c)\<lparr>enState := PUTIMER_STATE_FIRED\<rparr>)"
      have rec: "extract_walk tsNow ?pool1 (pCallList @ [c]) (Some c) (pNext (pool c)) =
                   Inr (pool', cl', pPrev', pCurr')"
        using "1.prems" Some True by (subst (asm) extract_walk.simps) simp
      have "(pool' x)\<lparr>enState := enState (?pool1 x)\<rparr> = ?pool1 x"
        using "1.IH" [OF Some _ _ rec] True by simp
      then have "((pool' x)\<lparr>enState := enState (?pool1 x)\<rparr>)\<lparr>enState := enState (pool x)\<rparr>
                 = (?pool1 x)\<lparr>enState := enState (pool x)\<rparr>"
        by (rule arg_cong)
      then show ?thesis by (cases "x = c") simp_all
    next
      case False
      then show ?thesis using "1.prems" Some
        by (subst (asm) extract_walk.simps) (auto split: if_splits)
    qed
  qed
qed

lemma same_alloc_refl: "same_alloc s s"
  by (simp add: same_alloc_def)

lemma same_alloc_remove:
  "putimer_remove t tsNow s = Inr (r, a, m, s1) \<Longrightarrow> same_alloc s s1"
  by (simp add: same_alloc_def putimer_remove_fields)

lemma same_alloc_add:
  "putimer_add t tsNow s = Inr (r, s1) \<Longrightarrow> same_alloc s s1"
  by (simp add: same_alloc_def putimer_add_frame)

lemma same_alloc_extract:
  assumes "putimer_thread_extract tsNow s = Inr (cl, s1)"
  shows "same_alloc s s1"
proof (cases "iKillThread s")
  case True
  then show ?thesis using assms by (simp add: putimer_thread_extract_def same_alloc_refl)
next
  case False
  then obtain pool' cl' pPrev pCurr where
    w: "extract_walk tsNow (pTimerList s) [] None (pQueue s) = Inr (pool', cl', pPrev, pCurr)"
    using assms
    by (cases "extract_walk tsNow (pTimerList s) [] None (pQueue s)")
       (auto simp add: putimer_thread_extract_def)
  have f: "\<And>x. (pool' x)\<lparr>enState := enState (pTimerList s x)\<rparr> = pTimerList s x"
    using extract_walk_fields [OF w] .
  have t: "\<And>x. usTag (pool' x) = usTag (pTimerList s x)"
    and u: "\<And>x. usID (pool' x) = usID (pTimerList s x)"
    using f by (metis putimer_tmr_t.select_convs(2) putimer_tmr_t.surjective putimer_tmr_t.update_convs(7),
                metis putimer_tmr_t.select_convs(1) putimer_tmr_t.surjective putimer_tmr_t.update_convs(7))
  show ?thesis
    using assms False w t u
    by (auto simp add: putimer_thread_extract_def same_alloc_def split: option.splits)
qed

lemma same_alloc_update:
  assumes "same_alloc s s1"
    and "usTag v = usTag (pTimerList s1 i)" "usID v = usID (pTimerList s1 i)"
  shows "same_alloc s (s1\<lparr>pTimerList := (pTimerList s1)(i := v)\<rparr>)"
  using assms by (simp add: same_alloc_def)

lemma same_alloc_dispatch_one:
  assumes "putimer_thread_dispatch_one c tsNow s = Inr (calls, s1)"
  shows "same_alloc s s1"
proof (cases "enState (pTimerList s c) = PUTIMER_STATE_FIRED \<and> usTag (pTimerList s c) > 0")
  case False
  then show ?thesis using assms
    by (auto simp add: putimer_thread_dispatch_one_def same_alloc_refl)
next
  case True
  let ?s1 = "s\<lparr>pTimerList := (pTimerList s)(c := (pTimerList s c)\<lparr>enState := PUTIMER_STATE_IDLE\<rparr>)\<rparr>"
  have a: "same_alloc s ?s1" by (simp add: same_alloc_def)
  show ?thesis
  proof (cases "enType (pTimerList s c) = PUTIMER_TYPE_PERIODIC")
    case p: True
    then obtain r s2 where ad: "putimer_add c tsNow ?s1 = Inr (r, s2)"
      using assms True
      by (cases "putimer_add c tsNow ?s1")
         (auto simp add: putimer_thread_dispatch_one_def Let_def)
    have "same_alloc ?s1 s2" using ad by (rule same_alloc_add)
    then have b: "same_alloc s s2" using a by (simp add: same_alloc_def)
    have "s1 = s2" using assms True p ad
      by (auto simp add: putimer_thread_dispatch_one_def Let_def split: option.splits if_splits)
    then show ?thesis using b by simp
  next
    case np: False
    then have "s1 = ?s1" using assms True
      by (auto simp add: putimer_thread_dispatch_one_def Let_def split: option.splits if_splits)
    then show ?thesis using a by simp
  qed
qed

lemma same_alloc_start:
  "putimer_start dbg hnd tsNow s = Inr (r, s1) \<Longrightarrow> same_alloc s s1"
  by (auto simp add: putimer_start_def Let_def same_alloc_refl same_alloc_add
      split: if_splits sum.splits)

lemma same_alloc_stop:
  "putimer_stop dbg hnd tsNow s = Inr (r, m, s1) \<Longrightarrow> same_alloc s s1"
  by (auto simp add: putimer_stop_def Let_def same_alloc_refl same_alloc_remove
      split: if_splits sum.splits)

lemma same_alloc_is_active:
  "putimer_is_active dbg hnd s = Inr (r, m, s1) \<Longrightarrow> s1 = s"
  by (auto simp add: putimer_is_active_def Let_def split: if_splits)

lemma same_alloc_set_period:
  assumes "putimer_set_period dbg hnd ms tsNow s = Inr (r, s1)"
  shows "same_alloc s s1"
proof (cases "r = 0")
  case False
  then have "s1 = s" using assms
    by (auto simp add: putimer_set_period_def Let_def split: if_splits sum.splits)
  then show ?thesis by (simp add: same_alloc_refl)
next
  case True
  then obtain u a m s2 where rm: "putimer_remove (unat (PUTIMER_HND_GET_IDX hnd)) tsNow s = Inr (u, a, m, s2)"
    and s1: "s1 = s2\<lparr>pTimerList := (pTimerList s2)
                 (unat (PUTIMER_HND_GET_IDX hnd) := (pTimerList s2 (unat (PUTIMER_HND_GET_IDX hnd)))
                   \<lparr>uiPeriodMs := (if ms < PUTIMER_MIN_TIMEOUT then PUTIMER_MIN_TIMEOUT else ms)\<rparr>)\<rparr>"
    using assms
    by (auto simp add: putimer_set_period_def Let_def split: if_splits sum.splits)
  show ?thesis unfolding s1
    by (rule same_alloc_update [OF same_alloc_remove [OF rm]]) simp_all
qed

lemma same_alloc_set_wake_time:
  assumes "putimer_set_wake_time dbg hnd pWake stMT stRT tsNow s = Inr (r, s1)"
  shows "same_alloc s s1"
proof (cases "r = 0")
  case False
  then have "s1 = s" using assms
    by (auto simp add: putimer_set_wake_time_def Let_def split: if_splits sum.splits)
  then show ?thesis by (simp add: same_alloc_refl)
next
  case True
  then obtain u a m s2 where rm: "putimer_remove (unat (PUTIMER_HND_GET_IDX hnd)) tsNow s = Inr (u, a, m, s2)"
    and s1: "s1 = s2\<lparr>pTimerList := (pTimerList s2)
                 (unat (PUTIMER_HND_GET_IDX hnd) := (pTimerList s2 (unat (PUTIMER_HND_GET_IDX hnd)))
                   \<lparr>tsEnd := timespec_realtime_to_monotonic pWake stMT stRT, iUseAbsTime := True\<rparr>)\<rparr>"
    using assms
    by (auto simp add: putimer_set_wake_time_def Let_def split: if_splits sum.splits)
  show ?thesis unfolding s1
    by (rule same_alloc_update [OF same_alloc_remove [OF rm]]) simp_all
qed

lemma putimer_create_local_cases:
  assumes "putimer_create_local dbg ty fct ms ck lk s = Inr (hnd, s')"
  shows "(hnd = 0 \<and> s' = s) \<or>
    (\<exists>k. k < 128 \<and> \<not> id_bit (pTimerId s) k \<and>
       hnd = PUTIMER_HND_CREATE (of_nat k) (rolled_tag (usRollingTag s)) \<and>
       s' = s\<lparr>pTimerId := (pTimerId s)(k div 32 := pTimerId s (k div 32) OR 2 ^ (k mod 32)),
              usRollingTag := rolled_tag (usRollingTag s),
              uiAllocatedTimers := uiAllocatedTimers s + 1,
              pTimerList := (pTimerList s)(k := (pTimerList s k)
               \<lparr>usID := of_nat k, usTag := rolled_tag (usRollingTag s), enType := ty,
                pFct := fct, pCookie := ck,
                uiPeriodMs := (if ms < PUTIMER_MIN_TIMEOUT then PUTIMER_MIN_TIMEOUT else ms),
                enState := PUTIMER_STATE_IDLE, iUseAbsTime := False, pNext := None,
                bLockable := lk\<rparr>)\<rparr>)"
proof (cases "iIsInit s \<and> fct \<noteq> None \<and>
              (ty = PUTIMER_TYPE_SINGLESHOT \<or> ty = PUTIMER_TYPE_PERIODIC) \<and>
              unat (uiAllocatedTimers s) < PUTIMER_MAX_RESOURCES")
  case False
  have "putimer_create_local dbg ty fct ms ck lk s = Inr (0, s) \<or>
             putimer_create_local dbg ty fct ms ck lk s = Inl AssertFailed"
  proof (cases "iIsInit s \<and> fct \<noteq> None \<and>
              (ty = PUTIMER_TYPE_SINGLESHOT \<or> ty = PUTIMER_TYPE_PERIODIC)")
    case f1: False
    then have g: "(iIsInit s \<and> fct \<noteq> None \<and>
              (ty = PUTIMER_TYPE_SINGLESHOT \<or> ty = PUTIMER_TYPE_PERIODIC)) = False" by simp
    show ?thesis unfolding putimer_create_local_def g by (simp add: Let_def)
  next
    case t1: True
    then have g1: "(iIsInit s \<and> fct \<noteq> None \<and>
              (ty = PUTIMER_TYPE_SINGLESHOT \<or> ty = PUTIMER_TYPE_PERIODIC)) = True" by simp
    have g2: "(unat (uiAllocatedTimers s) < PUTIMER_MAX_RESOURCES) = False" using False t1 by simp
    show ?thesis unfolding putimer_create_local_def g1 g2 by (simp add: Let_def)
  qed
  then show ?thesis using assms by auto
next
  case True
  then have i: "iIsInit s" "fct \<noteq> None" "ty = PUTIMER_TYPE_SINGLESHOT \<or> ty = PUTIMER_TYPE_PERIODIC"
    "unat (uiAllocatedTimers s) < PUTIMER_MAX_RESOURCES" by simp_all
  show ?thesis
  proof (cases "alloc_id_word (pTimerId s) 0")
    case None
    then have al: "putimer_alloc_id dbg (pTimerId s) = (if dbg then Inl AssertFailed else Inr (pTimerId s, 0xffff))"
      by (simp add: putimer_alloc_id_def)
    have g1: "(iIsInit s \<and> fct \<noteq> None \<and>
              (ty = PUTIMER_TYPE_SINGLESHOT \<or> ty = PUTIMER_TYPE_PERIODIC)) = True"
      and g2: "(unat (uiAllocatedTimers s) < PUTIMER_MAX_RESOURCES) = True" using True by simp_all
    have "putimer_create_local dbg ty fct ms ck lk s = Inl AssertFailed \<or>
          putimer_create_local dbg ty fct ms ck lk s = Inl OutOfBounds"
      unfolding putimer_create_local_def g1 g2 al
      by (simp add: Let_def max_resources_128)
    then show ?thesis using assms by auto
  next
    case (Some r)
    obtain ids' u where r: "r = (ids', u)" by (cases r)
    from alloc_id_word_Some [OF Some [unfolded r]]
    obtain k where k: "k < 128" "u = of_nat k" "\<not> id_bit (pTimerId s) k"
      "ids' = (pTimerId s)(k div 32 := pTimerId s (k div 32) OR 2 ^ (k mod 32))" by auto
    have al: "putimer_alloc_id dbg (pTimerId s) = Inr (ids', u)"
      using Some r by (simp add: putimer_alloc_id_def)
    have uk: "unat u = k" using k(1,2) by (simp add: unat_of_nat_128)
    let ?res = "Inr (PUTIMER_HND_CREATE u (rolled_tag (usRollingTag s)),
       s\<lparr>pTimerId := ids',
              usRollingTag := rolled_tag (usRollingTag s),
              uiAllocatedTimers := uiAllocatedTimers s + 1,
              pTimerList := (pTimerList s)(k := (pTimerList s k)
               \<lparr>usID := u, usTag := rolled_tag (usRollingTag s), enType := ty,
                pFct := fct, pCookie := ck,
                uiPeriodMs := (if ms < PUTIMER_MIN_TIMEOUT then PUTIMER_MIN_TIMEOUT else ms),
                enState := PUTIMER_STATE_IDLE, iUseAbsTime := False, pNext := None,
                bLockable := lk\<rparr>)\<rparr>) :: fault + (64 word \<times> putimer_module)"
    have g1: "(iIsInit s \<and> fct \<noteq> None \<and>
              (ty = PUTIMER_TYPE_SINGLESHOT \<or> ty = PUTIMER_TYPE_PERIODIC)) = True"
      and g2: "(unat (uiAllocatedTimers s) < PUTIMER_MAX_RESOURCES) = True" using True by simp_all
    have "putimer_create_local dbg ty fct ms ck lk s = Inl AssertFailed \<or>
          putimer_create_local dbg ty fct ms ck lk s = ?res"
      unfolding putimer_create_local_def g1 g2 al
      using k(1) by (simp add: Let_def uk max_resources_128 rolled_tag_def)
    then have "putimer_create_local dbg ty fct ms ck lk s = ?res" using assms by auto
    then have "hnd = PUTIMER_HND_CREATE u (rolled_tag (usRollingTag s))" and
      "s' = s\<lparr>pTimerId := ids',
              usRollingTag := rolled_tag (usRollingTag s),
              uiAllocatedTimers := uiAllocatedTimers s + 1,
              pTimerList := (pTimerList s)(k := (pTimerList s k)
               \<lparr>usID := u, usTag := rolled_tag (usRollingTag s), enType := ty,
                pFct := fct, pCookie := ck,
                uiPeriodMs := (if ms < PUTIMER_MIN_TIMEOUT then PUTIMER_MIN_TIMEOUT else ms),
                enState := PUTIMER_STATE_IDLE, iUseAbsTime := False, pNext := None,
                bLockable := lk\<rparr>)\<rparr>"
      using assms by simp_all
    then show ?thesis using k by blast
  qed
qed

lemma tag_inv_same_alloc: "same_alloc s s' \<Longrightarrow> tag_inv s \<Longrightarrow> tag_inv s'"
  by (simp add: same_alloc_def tag_inv_def)

lemma tag_inv_create:
  assumes "putimer_create_local dbg ty fct ms ck lk s = Inr (hnd, s')" "tag_inv s"
  shows "tag_inv s'"
proof -
  from putimer_create_local_cases [OF assms(1)]
  consider "s' = s"
    | k where "k < 128"
       "s' = s\<lparr>pTimerId := (pTimerId s)(k div 32 := pTimerId s (k div 32) OR 2 ^ (k mod 32)),
              usRollingTag := rolled_tag (usRollingTag s),
              uiAllocatedTimers := uiAllocatedTimers s + 1,
              pTimerList := (pTimerList s)(k := (pTimerList s k)
               \<lparr>usID := of_nat k, usTag := rolled_tag (usRollingTag s), enType := ty,
                pFct := fct, pCookie := ck,
                uiPeriodMs := (if ms < PUTIMER_MIN_TIMEOUT then PUTIMER_MIN_TIMEOUT else ms),
                enState := PUTIMER_STATE_IDLE, iUseAbsTime := False, pNext := None,
                bLockable := lk\<rparr>)\<rparr>"
    by blast
  then show ?thesis
  proof cases
    case 1
    then show ?thesis using assms(2) by simp
  next
    case 2
    show ?thesis
      unfolding tag_inv_def 2(2)
      using assms(2) by (auto simp add: tag_inv_def id_bit_set rolled_tag_nonzero)
  qed
qed

lemma tag_inv_delete:
  assumes "putimer_delete dbg hnd tsNow s = Inr (r, s')" "tag_inv s"
  shows "tag_inv s'"
proof -
  let ?i = "unat (PUTIMER_HND_GET_IDX hnd)"
  let ?j = "unat (usID (pTimerList s ?i))"
  from putimer_delete_cases [OF assms(1)]
  consider "s' = s"
    | u a m s1 where "?i < 128" "?j < 128"
       "putimer_remove ?i tsNow s = Inr (u, a, m, s1)"
       "s' = s1\<lparr>pTimerId := (pTimerId s)(?j div 32 := pTimerId s (?j div 32)
                         AND NOT (push_bit (?j - ?j div 32 * 32) 1)),
                    uiAllocatedTimers := uiAllocatedTimers s - 1,
                    pTimerList := (pTimerList s1) (?i := (pTimerList s1 ?i)\<lparr>usTag := 0\<rparr>)\<rparr>"
    by blast
  then show ?thesis
  proof cases
    case 1
    then show ?thesis using assms(2) by simp
  next
    case 2
    note f = putimer_remove_fields [OF 2(3)]
    have bits: "\<And>l. id_bit (pTimerId s') l = (l \<noteq> ?j \<and> id_bit (pTimerId s) l)"
      unfolding 2(4) using id_bit_clear [of "pTimerId s" ?j] by simp
    have tags: "\<And>l. usTag (pTimerList s' l) = (if l = ?i then 0 else usTag (pTimerList s l))"
      by (simp add: 2(4) f)
    have ids: "\<And>l. usID (pTimerList s' l) = usID (pTimerList s l)" by (simp add: 2(4) f)
    have own: "usTag (pTimerList s ?i) \<noteq> 0 \<Longrightarrow> ?j = ?i"
      using assms(2) 2(1) by (simp add: tag_inv_def max_resources_128 unat_of_nat_128)
    show ?thesis
      unfolding tag_inv_def
    proof (intro allI impI conjI)
      fix k assume k: "k < PUTIMER_MAX_RESOURCES" and b: "id_bit (pTimerId s') k"
      then have kb: "k \<noteq> ?j" "id_bit (pTimerId s) k" using bits by simp_all
      then have t: "usTag (pTimerList s k) \<noteq> 0" using assms(2) k by (simp add: tag_inv_def)
      have "k \<noteq> ?i" using kb(1) own t by auto
      then show "usTag (pTimerList s' k) \<noteq> 0" using t tags by simp
    next
      fix k assume k: "k < PUTIMER_MAX_RESOURCES" and t: "usTag (pTimerList s' k) \<noteq> 0"
      then have "usTag (pTimerList s k) \<noteq> 0" using tags by (simp split: if_splits)
      then show "usID (pTimerList s' k) = of_nat k" using assms(2) k ids by (simp add: tag_inv_def)
    qed
  qed
qed

lemma tag_inv_static: "tag_inv static_module"
  by (simp add: tag_inv_def static_module_def id_bit_zero zero_tmr_def)

lemma tag_inv_init:
  "putimer_init dbg a b c d s = Inr (r, s') \<Longrightarrow> tag_inv s \<Longrightarrow> tag_inv s'"
  by (auto simp add: putimer_init_def Let_def tag_inv_def id_bit_zero zero_tmr_def split: if_splits)

lemma tag_inv_exit: "tag_inv s \<Longrightarrow> tag_inv (snd (putimer_exit s))"
  by (auto simp add: putimer_exit_def tag_inv_def id_bit_zero zero_tmr_def)

lemma map_sum_snd_Inr: "map_sum id snd x = Inr s' \<Longrightarrow> \<exists>r. x = Inr (r, s')"
  by (cases x) auto

lemma map_sum_snd_snd_Inr: "map_sum id (\<lambda>r. snd (snd r)) x = Inr s' \<Longrightarrow> \<exists>r m. x = Inr (r, m, s')"
  by (cases x) auto

text \<open>A step other than a creation, a deletion, an initialisation or an exit keeps the allocation data.\<close>

lemma step_same_alloc:
  assumes "step dbg c s = Inr s'"
    and "\<And>ty fct ms ck lk. c \<noteq> Create ty fct ms ck lk" "\<And>hnd tsNow. c \<noteq> Delete hnd tsNow"
    and "\<And>a b c' d. c \<noteq> Init a b c' d" "c \<noteq> Exit"
  shows "same_alloc s s'"
proof (cases c)
  case (SetPeriod hnd ms tsNow)
  then obtain r where "putimer_set_period dbg hnd ms tsNow s = Inr (r, s')"
    using assms(1) map_sum_snd_Inr by fastforce
  then show ?thesis by (rule same_alloc_set_period)
next
  case (SetWakeTime hnd pWake stMT stRT tsNow)
  then obtain r where "putimer_set_wake_time dbg hnd pWake stMT stRT tsNow s = Inr (r, s')"
    using assms(1) map_sum_snd_Inr by fastforce
  then show ?thesis by (rule same_alloc_set_wake_time)
next
  case (Start hnd tsNow)
  then obtain r where "putimer_start dbg hnd tsNow s = Inr (r, s')"
    using assms(1) map_sum_snd_Inr by fastforce
  then show ?thesis by (rule same_alloc_start)
next
  case (IsActive hnd)
  then obtain r m where "putimer_is_active dbg hnd s = Inr (r, m, s')"
    using assms(1) map_sum_snd_snd_Inr by fastforce
  then have "s' = s" by (rule same_alloc_is_active)
  then show ?thesis by (simp add: same_alloc_refl)
next
  case (Stop hnd tsNow)
  then obtain r m where "putimer_stop dbg hnd tsNow s = Inr (r, m, s')"
    using assms(1) map_sum_snd_snd_Inr by fastforce
  then show ?thesis by (rule same_alloc_stop)
next
  case (Extract tsNow)
  then obtain r where "putimer_thread_extract tsNow s = Inr (r, s')"
    using assms(1) map_sum_snd_Inr by fastforce
  then show ?thesis by (rule same_alloc_extract)
next
  case (DispatchOne x tsNow)
  then obtain r where "putimer_thread_dispatch_one x tsNow s = Inr (r, s')"
    using assms(1) map_sum_snd_Inr by fastforce
  then show ?thesis by (rule same_alloc_dispatch_one)
qed (use assms in simp_all)

lemma tag_inv_step:
  assumes "step dbg c s = Inr s'" "tag_inv s"
  shows "tag_inv s'"
proof (cases c)
  case (Init a b c' d)
  then obtain r where "putimer_init dbg a b c' d s = Inr (r, s')"
    using assms(1) map_sum_snd_Inr by fastforce
  then show ?thesis using assms(2) by (rule tag_inv_init)
next
  case Exit
  then show ?thesis using assms by (auto simp add: tag_inv_exit)
next
  case (Create ty fct ms ck lk)
  then obtain r where "putimer_create_local dbg ty fct ms ck lk s = Inr (r, s')"
    using assms(1) map_sum_snd_Inr by fastforce
  then show ?thesis using assms(2) by (rule tag_inv_create)
next
  case (Delete hnd tsNow)
  then obtain r where "putimer_delete dbg hnd tsNow s = Inr (r, s')"
    using assms(1) map_sum_snd_Inr by fastforce
  then show ?thesis using assms(2) by (rule tag_inv_delete)
next
  case (SetPeriod hnd ms tsNow)
  then have "same_alloc s s'" using assms(1) by (intro step_same_alloc [of dbg c]) simp_all
  then show ?thesis using assms(2) by (rule tag_inv_same_alloc)
next
  case (SetWakeTime hnd pWake stMT stRT tsNow)
  then have "same_alloc s s'" using assms(1) by (intro step_same_alloc [of dbg c]) simp_all
  then show ?thesis using assms(2) by (rule tag_inv_same_alloc)
next
  case (Start hnd tsNow)
  then have "same_alloc s s'" using assms(1) by (intro step_same_alloc [of dbg c]) simp_all
  then show ?thesis using assms(2) by (rule tag_inv_same_alloc)
next
  case (IsActive hnd)
  then have "same_alloc s s'" using assms(1) by (intro step_same_alloc [of dbg c]) simp_all
  then show ?thesis using assms(2) by (rule tag_inv_same_alloc)
next
  case (Stop hnd tsNow)
  then have "same_alloc s s'" using assms(1) by (intro step_same_alloc [of dbg c]) simp_all
  then show ?thesis using assms(2) by (rule tag_inv_same_alloc)
next
  case (Extract tsNow)
  then have "same_alloc s s'" using assms(1) by (intro step_same_alloc [of dbg c]) simp_all
  then show ?thesis using assms(2) by (rule tag_inv_same_alloc)
next
  case (DispatchOne x tsNow)
  then have "same_alloc s s'" using assms(1) by (intro step_same_alloc [of dbg c]) simp_all
  then show ?thesis using assms(2) by (rule tag_inv_same_alloc)
qed

lemma tag_inv_run: "run dbg cs s = Inr s' \<Longrightarrow> tag_inv s \<Longrightarrow> tag_inv s'"
proof (induction cs arbitrary: s)
  case Nil
  then show ?case by simp
next
  case (Cons c cs)
  then show ?case by (cases "step dbg c s") (auto dest: tag_inv_step)
qed

text \<open>What one step does to the rolling tag and to the tags of the slots.\<close>

lemma step_tags:
  assumes "step dbg c s = Inr s'"
  shows "usRollingTag s' = (rolled_tag ^^ creations dbg [c] s) (usRollingTag s) \<and>
         (\<forall>x. usTag (pTimerList s' x) = usTag (pTimerList s x) \<or> usTag (pTimerList s' x) = 0 \<or>
              (creations dbg [c] s = 1 \<and> usTag (pTimerList s' x) = usRollingTag s'))"
proof (cases c)
  case (Init a b c' d)
  then obtain r where i: "putimer_init dbg a b c' d s = Inr (r, s')"
    using assms map_sum_snd_Inr by fastforce
  have cr: "creations dbg [c] s = 0" using Init assms by simp
  have "s' = s \<or> s' = s\<lparr>iIsInit := True, pTimerId := (\<lambda>_. 0),
                               uiAllocatedTimers := 0, pTimerList := (\<lambda>_. zero_tmr)\<rparr>"
    using i by (auto simp add: putimer_init_def Let_def split: if_splits)
  then show ?thesis unfolding cr by (auto simp add: zero_tmr_def)
next
  case Exit
  have cr: "creations dbg [c] s = 0" using Exit by simp
  have "s' = s \<or> s' = s\<lparr>iIsInit := False, iKillThread := True, pTimerId := (\<lambda>_. 0),
                 uiAllocatedTimers := 0, pTimerList := (\<lambda>_. zero_tmr)\<rparr>"
    using Exit assms by (auto simp add: putimer_exit_def split: if_splits)
  then show ?thesis unfolding cr by (auto simp add: zero_tmr_def)
next
  case (Create ty fct ms ck lk)
  then obtain hnd where cl: "putimer_create_local dbg ty fct ms ck lk s = Inr (hnd, s')"
    using assms map_sum_snd_Inr by fastforce
  have cr: "creations dbg [c] s = (if hnd \<noteq> 0 then 1 else 0)"
    using Create cl by simp
  from putimer_create_local_cases [OF cl]
  consider "hnd = 0" "s' = s"
    | k where "k < 128"
       "hnd = PUTIMER_HND_CREATE (of_nat k) (rolled_tag (usRollingTag s))"
       "s' = s\<lparr>pTimerId := (pTimerId s)(k div 32 := pTimerId s (k div 32) OR 2 ^ (k mod 32)),
              usRollingTag := rolled_tag (usRollingTag s),
              uiAllocatedTimers := uiAllocatedTimers s + 1,
              pTimerList := (pTimerList s)(k := (pTimerList s k)
               \<lparr>usID := of_nat k, usTag := rolled_tag (usRollingTag s), enType := ty,
                pFct := fct, pCookie := ck,
                uiPeriodMs := (if ms < PUTIMER_MIN_TIMEOUT then PUTIMER_MIN_TIMEOUT else ms),
                enState := PUTIMER_STATE_IDLE, iUseAbsTime := False, pNext := None,
                bLockable := lk\<rparr>)\<rparr>"
    by blast
  then show ?thesis
  proof cases
    case 1
    then show ?thesis unfolding cr by simp
  next
    case 2
    have "hnd \<noteq> 0" unfolding 2(2) by (rule hnd_nonzero) (rule rolled_tag_nonzero)
    then show ?thesis unfolding cr 2(3) by simp
  qed
next
  case (Delete hnd tsNow)
  then obtain r where d: "putimer_delete dbg hnd tsNow s = Inr (r, s')"
    using assms map_sum_snd_Inr by fastforce
  have cr: "creations dbg [c] s = 0" using Delete assms by simp
  let ?i = "unat (PUTIMER_HND_GET_IDX hnd)"
  let ?j = "unat (usID (pTimerList s ?i))"
  from putimer_delete_cases [OF d]
  consider "s' = s"
    | u a m s1 where
       "putimer_remove ?i tsNow s = Inr (u, a, m, s1)"
       "s' = s1\<lparr>pTimerId := (pTimerId s)(?j div 32 := pTimerId s (?j div 32)
                         AND NOT (push_bit (?j - ?j div 32 * 32) 1)),
                    uiAllocatedTimers := uiAllocatedTimers s - 1,
                    pTimerList := (pTimerList s1) (?i := (pTimerList s1 ?i)\<lparr>usTag := 0\<rparr>)\<rparr>"
    by blast
  then show ?thesis
  proof cases
    case 1
    then show ?thesis unfolding cr by simp
  next
    case 2
    note f = putimer_remove_fields [OF 2(1)]
    show ?thesis unfolding cr 2(2) by (simp add: f)
  qed
next
  case (SetPeriod hnd ms tsNow)
  then have "same_alloc s s'" using assms by (intro step_same_alloc [of dbg c]) simp_all
  moreover have "creations dbg [c] s = 0" using SetPeriod assms by simp
  ultimately show ?thesis by (simp add: same_alloc_def)
next
  case (SetWakeTime hnd pWake stMT stRT tsNow)
  then have "same_alloc s s'" using assms by (intro step_same_alloc [of dbg c]) simp_all
  moreover have "creations dbg [c] s = 0" using SetWakeTime assms by simp
  ultimately show ?thesis by (simp add: same_alloc_def)
next
  case (Start hnd tsNow)
  then have "same_alloc s s'" using assms by (intro step_same_alloc [of dbg c]) simp_all
  moreover have "creations dbg [c] s = 0" using Start assms by simp
  ultimately show ?thesis by (simp add: same_alloc_def)
next
  case (IsActive hnd)
  then have "same_alloc s s'" using assms by (intro step_same_alloc [of dbg c]) simp_all
  moreover have "creations dbg [c] s = 0" using IsActive assms by simp
  ultimately show ?thesis by (simp add: same_alloc_def)
next
  case (Stop hnd tsNow)
  then have "same_alloc s s'" using assms by (intro step_same_alloc [of dbg c]) simp_all
  moreover have "creations dbg [c] s = 0" using Stop assms by simp
  ultimately show ?thesis by (simp add: same_alloc_def)
next
  case (Extract tsNow)
  then have "same_alloc s s'" using assms by (intro step_same_alloc [of dbg c]) simp_all
  moreover have "creations dbg [c] s = 0" using Extract assms by simp
  ultimately show ?thesis by (simp add: same_alloc_def)
next
  case (DispatchOne x tsNow)
  then have "same_alloc s s'" using assms by (intro step_same_alloc [of dbg c]) simp_all
  moreover have "creations dbg [c] s = 0" using DispatchOne assms by simp
  ultimately show ?thesis by (simp add: same_alloc_def)
qed

lemma unat16_bounds: "t \<noteq> 0 \<Longrightarrow> 1 \<le> unat (t :: 16 word) \<and> unat t \<le> 65535"
proof -
  assume "t \<noteq> 0"
  then have "unat t \<noteq> 0" by (simp add: unat_eq_0)
  moreover have "unat t < 2 ^ 16" using unsigned_less [of t, where 'a = nat] by simp
  ultimately show ?thesis by simp
qed

lemma rolled_tag_unat:
  assumes "t \<noteq> 0"
  shows "unat (rolled_tag t) = (if unat t = 65535 then 1 else unat t + 1)"
proof (cases "unat t = 65535")
  case True
  then have "of_nat (unat t) = (of_nat 65535 :: 16 word)" by simp
  then have "t = 65535" by simp
  then show ?thesis by (simp add: rolled_tag_def)
next
  case False
  then have lt: "unat t + 1 < 2 ^ 16" using unat16_bounds [OF assms] by simp
  then have u: "unat (t + 1) = unat t + 1" by (simp add: unat_word_ariths)
  then have "t + 1 \<noteq> 0" by (metis Suc_eq_plus1 nat.distinct(1) unat_0)
  then show ?thesis using False u by (simp add: rolled_tag_def)
qed

lemma rolled_iter_unat:
  "t \<noteq> 0 \<Longrightarrow> (rolled_tag ^^ m) t \<noteq> 0 \<and>
               unat ((rolled_tag ^^ m) t) = (unat t - 1 + m) mod 65535 + 1"
proof (induction m)
  case 0
  then have b: "1 \<le> unat t" "unat t \<le> 65535" using unat16_bounds [of t] by simp_all
  then have "unat t - 1 < 65535" by simp
  then have "(unat t - 1) mod 65535 = unat t - 1" by simp
  then show ?case using 0 b by simp
next
  case (Suc m)
  then have ih: "(rolled_tag ^^ m) t \<noteq> 0"
    "unat ((rolled_tag ^^ m) t) = (unat t - 1 + m) mod 65535 + 1" by simp_all
  let ?r = "(unat t - 1 + m) mod 65535"
  have lt: "?r < 65535" by simp
  have "unat ((rolled_tag ^^ Suc m) t) = (if ?r + 1 = 65535 then 1 else ?r + 2)"
    using rolled_tag_unat [OF ih(1)] ih(2) by simp
  also have "\<dots> = (unat t - 1 + Suc m) mod 65535 + 1"
  proof (cases "?r + 1 = 65535")
    case True
    then have "(?r + 1) mod 65535 = 0" by simp
    then have "(unat t - 1 + m + 1) mod 65535 = 0" by (metis mod_add_left_eq)
    then show ?thesis using True by simp
  next
    case False
    then have "?r + 1 < 65535" using lt by linarith
    then have "(?r + 1) mod 65535 = ?r + 1" by simp
    then have "(unat t - 1 + m + 1) mod 65535 = ?r + 1" by (metis mod_add_left_eq)
    then show ?thesis using False by simp
  qed
  finally show ?case by (simp add: rolled_tag_nonzero)
qed

text \<open>The rolling tag takes 65535 creations to come back to a value.\<close>

lemma rolled_iter_neq:
  assumes "t \<noteq> 0" "0 < m" "m < 65535"
  shows "(rolled_tag ^^ m) t \<noteq> t"
proof
  assume e: "(rolled_tag ^^ m) t = t"
  define u where "u = unat t - 1"
  have b: "unat t = u + 1" "u < 65535" using unat16_bounds [OF assms(1)] unfolding u_def by linarith+
  have "unat ((rolled_tag ^^ m) t) = (u + m) mod 65535 + 1"
    using rolled_iter_unat [OF assms(1)] by (simp add: u_def)
  then have "(u + m) mod 65535 = u" using e b(1) by simp
  then have "(u + m) mod 65535 = u mod 65535" using b(2) by simp
  then have "65535 dvd (u + m - u)" by (simp add: mod_eq_dvd_iff_nat)
  then have "65535 dvd m" by simp
  then show False using assms(2,3) by (auto dest: dvd_imp_le)
qed

section \<open>Entries of equal expiration\<close>

lemma hnd_1: "unat (PUTIMER_HND_GET_IDX 0x1) = 0" "PUTIMER_HND_GET_TAG 0x1 = 1"
  by (simp_all add: PUTIMER_HND_GET_IDX_def PUTIMER_HND_GET_TAG_def)

lemma hnd_10002: "unat (PUTIMER_HND_GET_IDX 0x10002) = 1" "PUTIMER_HND_GET_TAG 0x10002 = 2"
  by (simp_all add: PUTIMER_HND_GET_IDX_def PUTIMER_HND_GET_TAG_def)

lemma two_timer_create:
  "run dbg [Create PUTIMER_TYPE_SINGLESHOT (Some 0) 1000 0 False,
            Create PUTIMER_TYPE_SINGLESHOT (Some 0) 500 0 False] init_module = Inr two_timer_module"
proof -
  define m1 where "m1 = init_module\<lparr>pTimerId := (\<lambda>_. 0)(0 := 1), usRollingTag := 1, uiAllocatedTimers := 1,
       pTimerList := (\<lambda>_. zero_tmr)(0 := zero_tmr\<lparr>usTag := 1, pFct := Some 0, uiPeriodMs := 1000\<rparr>)\<rparr>"
  have ty: "PUTIMER_TYPE_SINGLESHOT = PUTIMER_TYPE_SINGLESHOT \<or>
            PUTIMER_TYPE_SINGLESHOT = PUTIMER_TYPE_PERIODIC" by simp
  have c1: "putimer_create_local dbg PUTIMER_TYPE_SINGLESHOT (Some 0) 1000 0 False init_module = Inr (1, m1)"
  proof -
    have a: "unat (uiAllocatedTimers init_module) < PUTIMER_MAX_RESOURCES"
      by (simp add: init_module_def static_module_def max_resources_128)
    have b: "iIsInit init_module" by (simp add: init_module_def static_module_def)
    have c: "dbg \<longrightarrow> usTag (pTimerList init_module 0) = 0"
      by (simp add: init_module_def static_module_def zero_tmr_def)
    have d: "\<not> id_bit (pTimerId init_module) 0"
      by (simp add: init_module_def static_module_def id_bit_zero)
    have f: "(0::nat) < 128" by simp
    have g: "\<forall>l<0::nat. id_bit (pTimerId init_module) l" by simp
    have h: "PUTIMER_HND_CREATE 0 1 = 1" by (simp add: PUTIMER_HND_CREATE_def)
    show ?thesis
      using putimer_create_local_success [OF b refl ty a f d g c, where ms = 1000 and ck = 0 and lk = False]
      by (simp add: h m1_def init_module_def static_module_def rolled_tag_def
           PUTIMER_MIN_TIMEOUT_def zero_tmr_def)
  qed
  have c2: "putimer_create_local dbg PUTIMER_TYPE_SINGLESHOT (Some 0) 500 0 False m1 = Inr (0x10002, two_timer_module)"
  proof -
    have a: "unat (uiAllocatedTimers m1) < PUTIMER_MAX_RESOURCES"
      by (simp add: m1_def max_resources_128)
    have b: "iIsInit m1" by (simp add: m1_def init_module_def static_module_def)
    have c: "dbg \<longrightarrow> usTag (pTimerList m1 1) = 0"
      by (simp add: m1_def zero_tmr_def)
    have d: "\<not> id_bit (pTimerId m1) 1"
      by (simp add: m1_def id_bit_def)
    have f: "(1::nat) < 128" by simp
    have g: "\<forall>l<1::nat. id_bit (pTimerId m1) l" by (simp add: m1_def id_bit_def)
    have h: "PUTIMER_HND_CREATE 1 2 = 0x10002" by (simp add: PUTIMER_HND_CREATE_def)
    show ?thesis
      using putimer_create_local_success [OF b refl ty a f d g c, where ms = 500 and ck = 0 and lk = False]
      by (simp add: h m1_def two_timer_module_def init_module_def static_module_def rolled_tag_def
           PUTIMER_MIN_TIMEOUT_def zero_tmr_def)
  qed
  show ?thesis by (simp add: c1 c2)
qed



lemma add_walk_Nil: "add_walk pool te pPrev None = Some (pPrev, None)"
  by (subst add_walk.simps) simp

lemma tie_start:
  "putimer_start dbg 0x1 \<lparr>tv_sec = 2, tv_nsec = 0\<rparr> two_timer_module = Inr (0, tie_module)"
proof -
  have a: "timespec_add_ms \<lparr>tv_sec = 2, tv_nsec = 0\<rparr> 1000 = \<lparr>tv_sec = 3, tv_nsec = 0\<rparr>"
    by (simp add: timespec_add_ms_def)
  have "putimer_add 0 \<lparr>tv_sec = 2, tv_nsec = 0\<rparr> two_timer_module = Inr (1, tie_module)"
    by (simp add: putimer_add_def two_timer_module_def tie_module_def init_module_def
        static_module_def zero_tmr_def a add_walk_Nil)
  then show ?thesis
    by (simp add: putimer_start_def hnd_1 max_resources_128 two_timer_module_def zero_tmr_def)
qed

lemma tie_run: "run dbg tie_calls static_module = Inr tie_module"
proof -
  have "run dbg [Create PUTIMER_TYPE_SINGLESHOT (Some 0) 1000 0 False,
            Create PUTIMER_TYPE_SINGLESHOT (Some 0) 500 0 False,
            Start 0x1 \<lparr>tv_sec = 2, tv_nsec = 0\<rparr>] init_module = Inr tie_module"
    using two_timer_create [of dbg] tie_start [of dbg]
    by (auto split: sum.splits)
  then show ?thesis by (simp add: tie_calls_def putimer_init_static)
qed

text \<open>
  C2. The code breaks the claim for an entry whose expiration equals that of a queued
  entry when \<open>timespec_add_ms\<close> leaves \<open>tv_nsec\<close> at one second. After
  initialisation, the creation of a 1000 ms and of a 500 ms timer and the start of the
  first at 2 s, the queue holds slot 0, due at 3 s. The start of the second timer at
  2.5 s gives it the expiration \<open>(2 s, 1000000000 ns)\<close>, the same instant of 3 s.
  \<open>putimer_add\<close> links it before slot 0 and reports a new head: the entry armed
  later is first in the queue, where the claim puts it behind every entry of equal
  expiration.
\<close>

theorem putimer_add_equal_expiration_jumps_queue:
  "run dbg tie_calls static_module = Inr tie_module \<and>
   enState (pTimerList tie_module 1) = PUTIMER_STATE_IDLE \<and>
   pending_queue tie_module [0] \<and> queue_sorted (pTimerList tie_module) [0] \<and>
   timespec_ns (tsEnd (pTimerList tie_module 0)) = 3000000000 \<and>
   (\<exists>s'. putimer_add 1 \<lparr>tv_sec = 2, tv_nsec = 500000000\<rparr> tie_module = Inr (1, s') \<and>
         putimer_start dbg 0x10002 \<lparr>tv_sec = 2, tv_nsec = 500000000\<rparr> tie_module = Inr (0, s') \<and>
         tsEnd (pTimerList s' 0) = \<lparr>tv_sec = 3, tv_nsec = 0\<rparr> \<and>
         tsEnd (pTimerList s' 1) = \<lparr>tv_sec = 2, tv_nsec = 1000000000\<rparr> \<and>
         timespec_ns (tsEnd (pTimerList s' 1)) = timespec_ns (tsEnd (pTimerList s' 0)) \<and>
         pending_queue s' [1, 0] \<and> pQueue s' = Some 1)"
proof -
  let ?now = "\<lparr>tv_sec = 2, tv_nsec = 500000000\<rparr>"
  have i: "enState (pTimerList tie_module 1) = PUTIMER_STATE_IDLE"
    by (simp add: tie_module_def two_timer_module_def zero_tmr_def)
  have q: "pending_queue tie_module [0]"
    by (simp add: pending_queue_def tie_module_def two_timer_module_def zero_tmr_def)
  have so: "queue_sorted (pTimerList tie_module) [0]" by (simp add: queue_sorted_def)
  have t0: "timespec_ns (tsEnd (pTimerList tie_module 0)) = 3000000000"
    by (simp add: tie_module_def timespec_ns_def)
  have a: "timespec_add_ms ?now 500 = \<lparr>tv_sec = 2, tv_nsec = 1000000000\<rparr>"
    by (simp add: timespec_add_ms_def)
  define s' where "s' = tie_module\<lparr>pQueue := Some 1,
     pTimerList := (pTimerList tie_module)
       (1 := (pTimerList tie_module 1)\<lparr>tsEnd := \<lparr>tv_sec = 2, tv_nsec = 1000000000\<rparr>,
                pNext := Some 0, enState := PUTIMER_STATE_WAITING\<rparr>)\<rparr>"
  have w: "add_walk pool \<lparr>tv_sec = 2, tv_nsec = 1000000000\<rparr> None (Some 0) = Some (None, Some 0)"
    if "tsEnd (pool 0) = \<lparr>tv_sec = 3, tv_nsec = 0\<rparr>" for pool
    by (subst add_walk.simps) (simp add: that timespec_is_a_after_b_def)
  have ad: "putimer_add 1 ?now tie_module = Inr (1, s')"
    by (simp add: putimer_add_def tie_module_def two_timer_module_def init_module_def
        static_module_def zero_tmr_def a w s'_def)
  have st: "putimer_start dbg 0x10002 ?now tie_module = Inr (0, s')"
  proof -
    have "usTag (pTimerList tie_module 1) = 2"
      by (simp add: tie_module_def two_timer_module_def zero_tmr_def)
    then show ?thesis using ad by (simp add: putimer_start_def hnd_10002 max_resources_128)
  qed
  have e0: "tsEnd (pTimerList s' 0) = \<lparr>tv_sec = 3, tv_nsec = 0\<rparr>"
    by (simp add: s'_def tie_module_def)
  have e1: "tsEnd (pTimerList s' 1) = \<lparr>tv_sec = 2, tv_nsec = 1000000000\<rparr>"
    by (simp add: s'_def)
  have ns: "timespec_ns (tsEnd (pTimerList s' 1)) = timespec_ns (tsEnd (pTimerList s' 0))"
    unfolding e0 e1 by (simp add: timespec_ns_def)
  have q': "pending_queue s' [1, 0]"
    by (simp add: pending_queue_def s'_def tie_module_def two_timer_module_def zero_tmr_def)
  have h: "pQueue s' = Some 1" by (simp add: s'_def)
  show ?thesis using tie_run i q so t0 ad st e0 e1 ns q' h by blast
qed

section \<open>Creation\<close>












section \<open>Generation tags\<close>

lemma creations_Cons:
  "step dbg c s = Inr s1 \<Longrightarrow> creations dbg (c # cs) s = creations dbg [c] s + creations dbg cs s1"
  by simp

lemma run_tags:
  assumes "run dbg cs s = Inr s'"
    and "usRollingTag s = (rolled_tag ^^ n) t"
    and "usTag (pTimerList s i) = 0 \<or>
         (\<exists>m. lo \<le> m \<and> m \<le> n \<and> usTag (pTimerList s i) = (rolled_tag ^^ m) t)"
    and "lo \<le> 1"
  shows "usRollingTag s' = (rolled_tag ^^ (n + creations dbg cs s)) t \<and>
         (usTag (pTimerList s' i) = 0 \<or>
          (\<exists>m. lo \<le> m \<and> m \<le> n + creations dbg cs s \<and>
               usTag (pTimerList s' i) = (rolled_tag ^^ m) t))"
  using assms(1-3)
proof (induction cs arbitrary: s n)
  case Nil
  then show ?case by simp
next
  case (Cons c cs)
  from Cons.prems(1) obtain s1 where st: "step dbg c s = Inr s1" and rn: "run dbg cs s1 = Inr s'"
    by (cases "step dbg c s") simp_all
  define d where "d = creations dbg [c] s"
  have cc: "creations dbg (c # cs) s = d + creations dbg cs s1"
    unfolding d_def using st by (rule creations_Cons)
  note stt0 = step_tags [OF st]
  have stt: "usRollingTag s1 = (rolled_tag ^^ d) (usRollingTag s) \<and> (\<forall>x. usTag (pTimerList s1 x) = usTag (pTimerList s x) \<or> usTag (pTimerList s1 x) = 0 \<or> (d = 1 \<and> usTag (pTimerList s1 x) = usRollingTag s1))" using stt0 unfolding d_def .
  have rt: "usRollingTag s1 = (rolled_tag ^^ d) (usRollingTag s)"
    using stt by (rule conjunct1)
  have tg: "usTag (pTimerList s1 i) = usTag (pTimerList s i) \<or> usTag (pTimerList s1 i) = 0 \<or>
              (d = 1 \<and> usTag (pTimerList s1 i) = usRollingTag s1)"
    using stt [THEN conjunct2, THEN spec, of i] .
  have "(rolled_tag ^^ (d + n)) t = (rolled_tag ^^ d) ((rolled_tag ^^ n) t)"
    by (simp only: funpow_add o_apply)
  then have rt': "usRollingTag s1 = (rolled_tag ^^ (n + d)) t"
    unfolding rt Cons.prems(2) by (simp only: add.commute [of n d])
  have tg': "usTag (pTimerList s1 i) = 0 \<or>
         (\<exists>m. lo \<le> m \<and> m \<le> n + d \<and> usTag (pTimerList s1 i) = (rolled_tag ^^ m) t)"
  proof -
    consider "usTag (pTimerList s1 i) = usTag (pTimerList s i)" | "usTag (pTimerList s1 i) = 0"
      | "d = 1" "usTag (pTimerList s1 i) = usRollingTag s1" using tg by blast
    then show ?thesis
    proof cases
      case 1
      show ?thesis
      proof (cases "usTag (pTimerList s i) = 0")
        case True
        then show ?thesis using 1 by simp
      next
        case False
        then obtain m where "lo \<le> m" "m \<le> n" "usTag (pTimerList s i) = (rolled_tag ^^ m) t"
          using Cons.prems(3) by blast
        then have "lo \<le> m \<and> m \<le> n + d \<and> usTag (pTimerList s1 i) = (rolled_tag ^^ m) t"
          using 1 by simp
        then show ?thesis by (intro disjI2 exI [of _ m])
      qed
    next
      case 2
      then show ?thesis by simp
    next
      case 3
      have "lo \<le> n + d" using assms(4) 3(1) by simp
      then have "lo \<le> n + d \<and> n + d \<le> n + d \<and> usTag (pTimerList s1 i) = (rolled_tag ^^ (n + d)) t"
        using 3(2) rt' by simp
      then show ?thesis by (intro disjI2 exI [of _ "n + d"])
    qed
  qed
  note ih = Cons.IH [OF rn rt' tg']
  have e: "n + d + creations dbg cs s1 = n + (d + creations dbg cs s1)" by simp
  show ?case unfolding cc using ih unfolding e .
qed


lemma handle_stays_stale:
  assumes cr: "putimer_create_local dbg ty fct ms ck lk s0 = Inr (hnd, s1)" and nz: "hnd \<noteq> 0"
    and r1: "run dbg cs1 s1 = Inr s2" and st: "stale_handle hnd s2"
    and r2: "run dbg cs2 s2 = Inr s3"
    and n: "creations dbg cs1 s1 + creations dbg cs2 s2 < 65535"
  shows "stale_handle hnd s3"
proof -
  define t where "t = rolled_tag (usRollingTag s0)"
  from putimer_create_local_cases [OF cr] nz
  obtain k where k: "k < 128" "hnd = PUTIMER_HND_CREATE (of_nat k) t"
    "usRollingTag s1 = t" "usTag (pTimerList s1 k) = t"
    unfolding t_def by auto
  have tnz: "t \<noteq> 0" by (simp add: t_def rolled_tag_nonzero)
  have idx: "unat (PUTIMER_HND_GET_IDX hnd) = k" and tag: "PUTIMER_HND_GET_TAG hnd = t"
    using k(1,2) by (simp_all add: hnd_get_idx hnd_get_tag unat_of_nat_128)
  have a0: "usRollingTag s1 = (rolled_tag ^^ 0) t" using k(3) by simp
  have b0: "usTag (pTimerList s1 k) = 0 \<or>
         (\<exists>m. 0 \<le> m \<and> m \<le> 0 \<and> usTag (pTimerList s1 k) = (rolled_tag ^^ m) t)"
    using k(4) by simp
  from run_tags [OF r1 a0 b0]
  have a1: "usRollingTag s2 = (rolled_tag ^^ (0 + creations dbg cs1 s1)) t"
    and b1: "usTag (pTimerList s2 k) = 0 \<or>
          (\<exists>m. 0 \<le> m \<and> m \<le> 0 + creations dbg cs1 s1 \<and>
               usTag (pTimerList s2 k) = (rolled_tag ^^ m) t)" by simp_all
  have ne: "usTag (pTimerList s2 k) \<noteq> t"
    using st k(1) by (simp add: stale_handle_def idx tag max_resources_128)
  have b1': "usTag (pTimerList s2 k) = 0 \<or>
          (\<exists>m. 1 \<le> m \<and> m \<le> 0 + creations dbg cs1 s1 \<and>
               usTag (pTimerList s2 k) = (rolled_tag ^^ m) t)"
  proof -
    consider "usTag (pTimerList s2 k) = 0"
      | m where "m \<le> 0 + creations dbg cs1 s1" "usTag (pTimerList s2 k) = (rolled_tag ^^ m) t"
      using b1 by blast
    then show ?thesis
    proof cases
      case 1
      then show ?thesis by simp
    next
      case 2
      have "m \<noteq> 0" using 2(2) ne by (cases m) auto
      then have "1 \<le> m" by simp
      then have "1 \<le> m \<and> m \<le> 0 + creations dbg cs1 s1 \<and>
               usTag (pTimerList s2 k) = (rolled_tag ^^ m) t" using 2 by simp
      then show ?thesis by (intro disjI2 exI [of _ m])
    qed
  qed
  from run_tags [OF r2 a1 b1']
  have "usTag (pTimerList s3 k) = 0 \<or>
          (\<exists>m. 1 \<le> m \<and> m \<le> 0 + creations dbg cs1 s1 + creations dbg cs2 s2 \<and>
               usTag (pTimerList s3 k) = (rolled_tag ^^ m) t)" by simp
  then have "usTag (pTimerList s3 k) \<noteq> t"
  proof
    assume "usTag (pTimerList s3 k) = 0"
    then show ?thesis using tnz by simp
  next
    assume "\<exists>m. 1 \<le> m \<and> m \<le> 0 + creations dbg cs1 s1 + creations dbg cs2 s2 \<and>
               usTag (pTimerList s3 k) = (rolled_tag ^^ m) t"
    then obtain m where m: "1 \<le> m" "m \<le> creations dbg cs1 s1 + creations dbg cs2 s2"
      "usTag (pTimerList s3 k) = (rolled_tag ^^ m) t" by auto
    have "(rolled_tag ^^ m) t \<noteq> t" using tnz m(1,2) n by (intro rolled_iter_neq) simp_all
    then show ?thesis using m(3) by simp
  qed
  then show ?thesis by (simp add: stale_handle_def idx tag)
qed


lemma run_append:
  "run dbg (as @ bs) s = (case run dbg as s of Inl f \<Rightarrow> Inl f | Inr s1 \<Rightarrow> run dbg bs s1)"
proof (induction as arbitrary: s)
  case Nil
  show ?case by simp
next
  case (Cons a as)
  show ?case
  proof (cases "step dbg a s")
    case (Inl f)
    then show ?thesis by simp
  next
    case (Inr s1)
    then show ?thesis using Cons.IH [of s1] by simp
  qed
qed

lemma creations_append:
  "run dbg as s = Inr s1 \<Longrightarrow> creations dbg (as @ bs) s = creations dbg as s + creations dbg bs s1"
proof (induction as arbitrary: s)
  case Nil
  then show ?case by simp
next
  case (Cons a as)
  from Cons.prems obtain s0 where st: "step dbg a s = Inr s0" and rn: "run dbg as s0 = Inr s1"
    by (cases "step dbg a s") simp_all
  have "creations dbg ((a # as) @ bs) s = creations dbg [a] s + creations dbg (as @ bs) s0"
    using creations_Cons [OF st, of "as @ bs"] by simp
  also have "\<dots> = creations dbg [a] s + (creations dbg as s0 + creations dbg bs s1)"
    using Cons.IH [OF rn] by simp
  also have "\<dots> = creations dbg (a # as) s + creations dbg bs s1"
    using creations_Cons [OF st, of as] by simp
  finally show ?case .
qed

lemma churn_create:
  "putimer_create_local dbg PUTIMER_TYPE_SINGLESHOT (Some 0) 100 0 False (churn_module r) =
     Inr (PUTIMER_HND_CREATE 0 (rolled_tag r),
          (churn_module r)\<lparr>pTimerId := (\<lambda>_. 0)(0 := 1), usRollingTag := rolled_tag r,
             uiAllocatedTimers := 1,
             pTimerList := (\<lambda>_. zero_tmr)
                (0 := zero_tmr\<lparr>usTag := rolled_tag r, pFct := Some 0, uiPeriodMs := 100\<rparr>)\<rparr>)"
proof -
  have a: "unat (uiAllocatedTimers (churn_module r)) < PUTIMER_MAX_RESOURCES"
    by (simp add: churn_module_def init_module_def static_module_def max_resources_128)
  have b: "iIsInit (churn_module r)" by (simp add: churn_module_def init_module_def static_module_def)
  have c: "dbg \<longrightarrow> usTag (pTimerList (churn_module r) 0) = 0"
    by (simp add: churn_module_def zero_tmr_def)
  have d: "\<not> id_bit (pTimerId (churn_module r)) 0"
    by (simp add: churn_module_def init_module_def static_module_def id_bit_zero)
  have e: "PUTIMER_TYPE_SINGLESHOT = PUTIMER_TYPE_SINGLESHOT \<or>
            PUTIMER_TYPE_SINGLESHOT = PUTIMER_TYPE_PERIODIC" by simp
  have f: "(0::nat) < 128" by simp
  have g: "\<forall>l<0::nat. id_bit (pTimerId (churn_module r)) l" by simp
  show ?thesis
    using putimer_create_local_success [OF b refl e a f d g c, where ms = 100 and ck = 0 and lk = False]
    by (simp add: churn_module_def init_module_def static_module_def
         PUTIMER_MIN_TIMEOUT_def zero_tmr_def)
qed

lemma churn_delete:
  "putimer_delete dbg (PUTIMER_HND_CREATE 0 t) tsNow
     ((churn_module r)\<lparr>pTimerId := (\<lambda>_. 0)(0 := 1), usRollingTag := t,
             uiAllocatedTimers := 1,
             pTimerList := (\<lambda>_. zero_tmr)
                (0 := zero_tmr\<lparr>usTag := t, pFct := Some 0, uiPeriodMs := 100\<rparr>)\<rparr>)
     = Inr (0, churn_module t)"
proof -
  let ?s = "(churn_module r)\<lparr>pTimerId := (\<lambda>_. 0)(0 := 1), usRollingTag := t,
             uiAllocatedTimers := 1,
             pTimerList := (\<lambda>_. zero_tmr)
                (0 := zero_tmr\<lparr>usTag := t, pFct := Some 0, uiPeriodMs := 100\<rparr>)\<rparr>"
  have rm: "putimer_remove 0 tsNow ?s = Inr (0, 0, 0, ?s)"
  proof -
    have "enState (pTimerList ?s 0) \<noteq> PUTIMER_STATE_WAITING"
      by (simp add: zero_tmr_def)
    moreover have "(pTimerList ?s)(0 := (pTimerList ?s 0)\<lparr>enState := PUTIMER_STATE_IDLE\<rparr>)
           = pTimerList ?s"
      by (simp add: zero_tmr_def fun_eq_iff)
    ultimately show ?thesis by (simp add: putimer_remove_idle)
  qed
  have fr: "putimer_free_id dbg 0 ((\<lambda>_. 0)(0 := 1)) = Inr (\<lambda>_. 0)"
    by (simp add: putimer_free_id_def max_resources_128 PUTIMER_RES_MULTIPLIER_def fun_eq_iff)
  have i: "unat (PUTIMER_HND_GET_IDX (PUTIMER_HND_CREATE 0 t)) = 0"
    "PUTIMER_HND_GET_TAG (PUTIMER_HND_CREATE 0 t) = t"
    by (simp_all add: hnd_get_idx hnd_get_tag)
  show ?thesis
    using rm fr
    by (simp add: putimer_delete_def i max_resources_128 churn_module_def init_module_def
          static_module_def zero_tmr_def)
qed


lemma churn_run:
  "run dbg (churn n r) (churn_module r) = Inr (churn_module ((rolled_tag ^^ n) r))"
proof (induction n arbitrary: r)
  case 0
  show ?case by simp
next
  case (Suc n)
  have "run dbg (churn (Suc n) r) (churn_module r) = run dbg (churn n (rolled_tag r)) (churn_module (rolled_tag r))"
    by (simp add: churn_create churn_delete)
  also have "\<dots> = Inr (churn_module ((rolled_tag ^^ n) (rolled_tag r)))" by (rule Suc.IH)
  also have "(rolled_tag ^^ n) (rolled_tag r) = (rolled_tag ^^ Suc n) r"
    by (simp only: funpow_Suc_right o_apply)
  finally show ?case .
qed

lemma rolled_wrap: "(rolled_tag ^^ 65534) 1 = 65535"
proof -
  have "unat ((rolled_tag ^^ 65534) (1 :: 16 word)) = 65535"
    using rolled_iter_unat [of 1 65534] by simp
  then have "of_nat (unat ((rolled_tag ^^ 65534) (1 :: 16 word))) = (of_nat 65535 :: 16 word)"
    by (simp only:)
  then show ?thesis by simp
qed

lemma wrap_run: "run dbg wrap_calls (churn_module 1) = Inr wrap_module"
proof -
  have r: "rolled_tag 65535 = 1" by (simp add: rolled_tag_def)
  have h: "PUTIMER_HND_CREATE 0 1 = 1" by (simp add: PUTIMER_HND_CREATE_def)
  have "run dbg wrap_calls (churn_module 1) =
        run dbg [Create PUTIMER_TYPE_SINGLESHOT (Some 0) 100 0 False] (churn_module 65535)"
    unfolding wrap_calls_def run_append churn_run rolled_wrap by simp
  also have "\<dots> = Inr wrap_module"
    using churn_create [of dbg 65535]
    by (simp add: r wrap_module_def churn_module_def)
  finally show ?thesis .
qed

lemma churn_creations: "creations dbg (churn n r) (churn_module r) = n"
proof (induction n arbitrary: r)
  case 0
  show ?case by simp
next
  case (Suc n)
  let ?m = "(churn_module r)\<lparr>pTimerId := (\<lambda>_. 0)(0 := 1), usRollingTag := rolled_tag r,
             uiAllocatedTimers := 1,
             pTimerList := (\<lambda>_. zero_tmr)
                (0 := zero_tmr\<lparr>usTag := rolled_tag r, pFct := Some 0, uiPeriodMs := 100\<rparr>)\<rparr>"
  let ?c = "Create PUTIMER_TYPE_SINGLESHOT (Some 0) 100 0 False"
  let ?d = "Delete (PUTIMER_HND_CREATE 0 (rolled_tag r)) \<lparr>tv_sec = 0, tv_nsec = 0\<rparr>"
  have s1: "step dbg ?c (churn_module r) = Inr ?m" by (simp add: churn_create)
  have s2: "step dbg ?d ?m = Inr (churn_module (rolled_tag r))" by (simp add: churn_delete)
  have c1: "creations dbg [?c] (churn_module r) = 1"
    by (simp add: churn_create hnd_nonzero rolled_tag_nonzero)
  have c2: "creations dbg [?d] ?m = 0" by (simp add: churn_delete)
  have e1: "creations dbg (churn (Suc n) r) (churn_module r) =
        creations dbg [?c] (churn_module r) + creations dbg (?d # churn n (rolled_tag r)) ?m"
    unfolding churn.simps using s1 by (rule creations_Cons)
  have e2: "creations dbg (?d # churn n (rolled_tag r)) ?m =
       creations dbg [?d] ?m + creations dbg (churn n (rolled_tag r)) (churn_module (rolled_tag r))"
    using s2 by (rule creations_Cons)
  show ?case unfolding e1 e2 c1 c2 Suc.IH by simp
qed

lemma delete_one_timer:
  "putimer_delete dbg 1 tsNow one_timer_module = Inr (0, churn_module 1)"
proof -
  have h: "PUTIMER_HND_CREATE 0 1 = 1" by (simp add: PUTIMER_HND_CREATE_def)
  have "(churn_module 0)\<lparr>pTimerId := (\<lambda>_. 0)(0 := 1), usRollingTag := 1,
             uiAllocatedTimers := 1,
             pTimerList := (\<lambda>_. zero_tmr)
                (0 := zero_tmr\<lparr>usTag := 1, pFct := Some 0, uiPeriodMs := 100\<rparr>)\<rparr> = one_timer_module"
    by (simp add: churn_module_def one_timer_module_def)
  then show ?thesis using churn_delete [of dbg 1 tsNow 0] by (simp add: h)
qed

lemma putimer_delete_stale:
  assumes del: "putimer_delete dbg h tsNow d = Inr (0, d')"
  shows "usTag (pTimerList d' (unat (PUTIMER_HND_GET_IDX h))) = 0"
proof -
  let ?i = "unat (PUTIMER_HND_GET_IDX h)"
  from putimer_delete_cases [OF del]
  obtain ids c s1 where d': "d' = s1\<lparr>pTimerId := ids, uiAllocatedTimers := c,
                    pTimerList := (pTimerList s1) (?i := (pTimerList s1 ?i)\<lparr>usTag := 0\<rparr>)\<rparr>"
    by auto
  show ?thesis unfolding d' by simp
qed


lemma putimer_create_local_handle:
  assumes cr: "putimer_create_local dbg ty fct ms ck lk s = Inr (hnd, s')"
  shows "(hnd = 0 \<and> s' = s) \<or>
      (hnd \<noteq> 0 \<and> usRollingTag s' = rolled_tag (usRollingTag s) \<and> usRollingTag s' \<noteq> 0 \<and>
       PUTIMER_HND_GET_TAG hnd = usRollingTag s' \<and>
       unat (PUTIMER_HND_GET_IDX hnd) < PUTIMER_MAX_RESOURCES \<and>
       usTag (pTimerList s' (unat (PUTIMER_HND_GET_IDX hnd))) = usRollingTag s' \<and>
       id_bit (pTimerId s') (unat (PUTIMER_HND_GET_IDX hnd)))"
proof (cases "hnd = 0 \<and> s' = s")
  case True
  then show ?thesis by simp
next
  case False
  define t where "t = rolled_tag (usRollingTag s)"
  from putimer_create_local_cases [OF cr] False
  obtain k where k: "k < 128" "hnd = PUTIMER_HND_CREATE (of_nat k) t"
    and s': "s' = s\<lparr>pTimerId := (pTimerId s)(k div 32 := pTimerId s (k div 32) OR 2 ^ (k mod 32)),
              usRollingTag := t,
              uiAllocatedTimers := uiAllocatedTimers s + 1,
              pTimerList := (pTimerList s)(k := (pTimerList s k)
               \<lparr>usID := of_nat k, usTag := t, enType := ty,
                pFct := fct, pCookie := ck,
                uiPeriodMs := (if ms < PUTIMER_MIN_TIMEOUT then PUTIMER_MIN_TIMEOUT else ms),
                enState := PUTIMER_STATE_IDLE, iUseAbsTime := False, pNext := None,
                bLockable := lk\<rparr>)\<rparr>"
    unfolding t_def by blast
  have tnz: "t \<noteq> 0" by (simp add: t_def rolled_tag_nonzero)
  have idx: "unat (PUTIMER_HND_GET_IDX hnd) = k" and tag: "PUTIMER_HND_GET_TAG hnd = t"
    using k by (simp_all add: hnd_get_idx hnd_get_tag unat_of_nat_128)
  have nz: "hnd \<noteq> 0" unfolding k(2) using tnz by (rule hnd_nonzero)
  have r: "usRollingTag s' = t" by (simp add: s')
  have g: "usTag (pTimerList s' k) = t" by (simp add: s')
  have b: "id_bit (pTimerId s') k" unfolding s' by (simp add: id_bit_set)
  show ?thesis
    unfolding idx tag r g using nz tnz k(1) b by (simp add: t_def max_resources_128)
qed

text \<open>
  C7 (as amended). A creation that returns a handle other than null stamps the rolling
  tag incremented, with a wrap to 0 mapped to 1, so the tag is not 0 and the handle,
  which carries it in its low 16 bits, is not null. In every state the module reaches
  from its static initialisation a slot whose id bit is set carries a tag other than 0.
  A deletion that succeeds sets the tag of the slot to 0, which makes the handle stale
  when its tag is not 0. A handle that was created and then deleted stays stale through
  every sequence of calls before and after the deletion that holds fewer than 65535
  creations.
\<close>

theorem generation_tag_spec:
  "(putimer_create_local dbg ty fct ms ck lk s = Inr (hnd, s') \<longrightarrow>
      (hnd = 0 \<and> s' = s) \<or>
      (hnd \<noteq> 0 \<and> usRollingTag s' = rolled_tag (usRollingTag s) \<and> usRollingTag s' \<noteq> 0 \<and>
       PUTIMER_HND_GET_TAG hnd = usRollingTag s' \<and>
       unat (PUTIMER_HND_GET_IDX hnd) < PUTIMER_MAX_RESOURCES \<and>
       usTag (pTimerList s' (unat (PUTIMER_HND_GET_IDX hnd))) = usRollingTag s' \<and>
       id_bit (pTimerId s') (unat (PUTIMER_HND_GET_IDX hnd)))) \<and>
   (run dbg cs static_module = Inr r \<longrightarrow>
      (\<forall>k<PUTIMER_MAX_RESOURCES. id_bit (pTimerId r) k \<longrightarrow> usTag (pTimerList r k) \<noteq> 0)) \<and>
   (putimer_delete dbg h tsNow d = Inr (0, d') \<longrightarrow>
      usTag (pTimerList d' (unat (PUTIMER_HND_GET_IDX h))) = 0 \<and>
      (PUTIMER_HND_GET_TAG h \<noteq> 0 \<longrightarrow> stale_handle h d')) \<and>
   (putimer_create_local dbg ty0 fct0 ms0 ck0 lk0 s0 = Inr (hnd0, s1) \<and> hnd0 \<noteq> 0 \<and>
    run dbg cs1 s1 = Inr s2 \<and> putimer_delete dbg hnd0 t2 s2 = Inr (0, s3) \<and>
    run dbg cs2 s3 = Inr s4 \<and> creations dbg cs1 s1 + creations dbg cs2 s3 < 65535 \<longrightarrow>
      stale_handle hnd0 s4)"
proof (intro conjI impI)
  assume "putimer_create_local dbg ty fct ms ck lk s = Inr (hnd, s')"
  then show "(hnd = 0 \<and> s' = s) \<or>
      (hnd \<noteq> 0 \<and> usRollingTag s' = rolled_tag (usRollingTag s) \<and> usRollingTag s' \<noteq> 0 \<and>
       PUTIMER_HND_GET_TAG hnd = usRollingTag s' \<and>
       unat (PUTIMER_HND_GET_IDX hnd) < PUTIMER_MAX_RESOURCES \<and>
       usTag (pTimerList s' (unat (PUTIMER_HND_GET_IDX hnd))) = usRollingTag s' \<and>
       id_bit (pTimerId s') (unat (PUTIMER_HND_GET_IDX hnd)))"
    by (rule putimer_create_local_handle)
next
  assume "run dbg cs static_module = Inr r"
  then have "tag_inv r" using tag_inv_static by (rule tag_inv_run)
  then show "\<forall>k<PUTIMER_MAX_RESOURCES. id_bit (pTimerId r) k \<longrightarrow> usTag (pTimerList r k) \<noteq> 0"
    by (simp add: tag_inv_def)
next
  assume "putimer_delete dbg h tsNow d = Inr (0, d')"
  then show "usTag (pTimerList d' (unat (PUTIMER_HND_GET_IDX h))) = 0"
    by (rule putimer_delete_stale)
next
  assume del: "putimer_delete dbg h tsNow d = Inr (0, d')" and nz: "PUTIMER_HND_GET_TAG h \<noteq> 0"
  have "usTag (pTimerList d' (unat (PUTIMER_HND_GET_IDX h))) = 0"
    using del by (rule putimer_delete_stale)
  then show "stale_handle h d'" using nz by (simp add: stale_handle_def)
next
  assume a: "putimer_create_local dbg ty0 fct0 ms0 ck0 lk0 s0 = Inr (hnd0, s1) \<and> hnd0 \<noteq> 0 \<and>
    run dbg cs1 s1 = Inr s2 \<and> putimer_delete dbg hnd0 t2 s2 = Inr (0, s3) \<and>
    run dbg cs2 s3 = Inr s4 \<and> creations dbg cs1 s1 + creations dbg cs2 s3 < 65535"
  then have cr: "putimer_create_local dbg ty0 fct0 ms0 ck0 lk0 s0 = Inr (hnd0, s1)"
    and nz: "hnd0 \<noteq> 0" and r1: "run dbg cs1 s1 = Inr s2"
    and del: "putimer_delete dbg hnd0 t2 s2 = Inr (0, s3)"
    and r2: "run dbg cs2 s3 = Inr s4"
    and n: "creations dbg cs1 s1 + creations dbg cs2 s3 < 65535" by simp_all
  from putimer_create_local_handle [OF cr] nz
  have tg: "PUTIMER_HND_GET_TAG hnd0 \<noteq> 0" by auto
  have z: "usTag (pTimerList s3 (unat (PUTIMER_HND_GET_IDX hnd0))) = 0"
    using del by (rule putimer_delete_stale)
  have st: "stale_handle hnd0 s3" using z tg by (simp add: stale_handle_def)
  have sd: "step dbg (Delete hnd0 t2) s2 = Inr s3" by (simp add: del)
  have r1': "run dbg (cs1 @ [Delete hnd0 t2]) s1 = Inr s3"
    unfolding run_append r1 using sd by simp
  have c0: "creations dbg [Delete hnd0 t2] s2 = 0" using sd by simp
  have c1: "creations dbg (cs1 @ [Delete hnd0 t2]) s1 = creations dbg cs1 s1"
    unfolding creations_append [OF r1] c0 by simp
  have n': "creations dbg (cs1 @ [Delete hnd0 t2]) s1 + creations dbg cs2 s3 < 65535"
    unfolding c1 by (rule n)
  show "stale_handle hnd0 s4"
    using cr nz r1' st r2 n' by (rule handle_stays_stale)
qed


theorem generation_tag_spec_witness:
  "putimer_create_local False PUTIMER_TYPE_SINGLESHOT (Some 0) 100 0 False init_module =
     Inr (1, one_timer_module) \<and>
   usRollingTag one_timer_module = rolled_tag (usRollingTag init_module) \<and>
   PUTIMER_HND_GET_TAG 1 = usRollingTag one_timer_module \<and>
   run False [Init 0 0 0 1, Create PUTIMER_TYPE_SINGLESHOT (Some 0) 100 0 False] static_module =
     Inr one_timer_module \<and>
   id_bit (pTimerId one_timer_module) 0 \<and> usTag (pTimerList one_timer_module 0) \<noteq> 0 \<and>
   putimer_delete False 1 \<lparr>tv_sec = 0, tv_nsec = 0\<rparr> one_timer_module = Inr (0, churn_module 1) \<and>
   PUTIMER_HND_GET_TAG 1 \<noteq> 0 \<and> stale_handle 1 (churn_module 1) \<and>
   run False [] one_timer_module = Inr one_timer_module \<and>
   run False (churn 1 1) (churn_module 1) = Inr (churn_module 2) \<and>
   creations False [] one_timer_module + creations False (churn 1 1) (churn_module 1) < 65535 \<and>
   stale_handle 1 (churn_module 2)"
proof -
  note spec = generation_tag_spec
    [where dbg = False and ty = PUTIMER_TYPE_SINGLESHOT and fct = "Some 0" and ms = 100 and ck = 0
       and lk = False and s = init_module and hnd = 1 and s' = one_timer_module
       and cs = "[Init 0 0 0 1, Create PUTIMER_TYPE_SINGLESHOT (Some 0) 100 0 False]"
       and r = one_timer_module
       and h = 1 and tsNow = "\<lparr>tv_sec = 0, tv_nsec = 0\<rparr>" and d = one_timer_module
       and d' = "churn_module 1"
       and ?ty0.0 = PUTIMER_TYPE_SINGLESHOT and ?fct0.0 = "Some 0" and ?ms0.0 = 100 and ?ck0.0 = 0
       and ?lk0.0 = False and ?s0.0 = init_module and ?hnd0.0 = 1 and ?s1.0 = one_timer_module
       and ?cs1.0 = "[]" and ?s2.0 = one_timer_module and ?t2.0 = "\<lparr>tv_sec = 0, tv_nsec = 0\<rparr>"
       and ?s3.0 = "churn_module 1" and ?cs2.0 = "churn 1 1" and ?s4.0 = "churn_module 2"]
  have cr: "putimer_create_local False PUTIMER_TYPE_SINGLESHOT (Some 0) 100 0 False init_module =
     Inr (1, one_timer_module)"
    using putimer_create_init [of False] by (simp add: putimer_create_def)
  have rn: "run False [Init 0 0 0 1, Create PUTIMER_TYPE_SINGLESHOT (Some 0) 100 0 False] static_module =
     Inr one_timer_module"
    by (simp add: putimer_init_static cr)
  have b: "id_bit (pTimerId one_timer_module) 0" by (simp add: one_timer_module_def id_bit_def)
  have k: "(0 :: nat) < PUTIMER_MAX_RESOURCES" by (simp add: max_resources_128)
  have del: "putimer_delete False 1 \<lparr>tv_sec = 0, tv_nsec = 0\<rparr> one_timer_module = Inr (0, churn_module 1)"
    by (rule delete_one_timer)
  have tg: "PUTIMER_HND_GET_TAG 1 \<noteq> 0" by (simp add: PUTIMER_HND_GET_TAG_def)
  have r1: "run False [] one_timer_module = Inr one_timer_module" by simp
  have rt: "(rolled_tag ^^ 1) 1 = 2" by (simp add: rolled_tag_def)
  have r2: "run False (churn 1 1) (churn_module 1) = Inr (churn_module 2)"
    using churn_run [of False 1 1] unfolding rt .
  have c: "creations False [] one_timer_module + creations False (churn 1 1) (churn_module 1) < 65535"
    unfolding churn_creations by simp
  have one: "(1 :: 64 word) \<noteq> 0" by simp
  from spec cr one have a1: "usRollingTag one_timer_module = rolled_tag (usRollingTag init_module)"
    and a2: "PUTIMER_HND_GET_TAG 1 = usRollingTag one_timer_module" by simp_all
  from spec rn k b have a3: "usTag (pTimerList one_timer_module 0) \<noteq> 0" by blast
  from spec del tg have a4: "stale_handle 1 (churn_module 1)" by blast
  from spec cr one r1 del r2 c have a5: "stale_handle 1 (churn_module 2)" by blast
  show ?thesis
    using cr a1 a2 rn b a3 del tg a4 r1 r2 c a5 by (intro conjI)
qed

text \<open>
  C7 as stated fails: the invalidation is not permanent. The handle \<open>0x1\<close> of the first
  timer is stale after its deletion; after 65535 more creations, each but the last
  followed by its deletion, the rolling tag is 1 again on slot 0, and the module
  accepts the handle of the deleted timer for the timer created last.
\<close>

theorem generation_tag_wrap_counterexample:
  "putimer_create_local False PUTIMER_TYPE_SINGLESHOT (Some 0) 100 0 False init_module =
     Inr (1, one_timer_module) \<and>
   putimer_delete False 1 \<lparr>tv_sec = 0, tv_nsec = 0\<rparr> one_timer_module = Inr (0, churn_module 1) \<and>
   stale_handle 1 (churn_module 1) \<and>
   run False wrap_calls (churn_module 1) = Inr wrap_module \<and>
   creations False wrap_calls (churn_module 1) = 65535 \<and>
   \<not> stale_handle 1 wrap_module \<and>
   putimer_is_active False 1 wrap_module = Inr (0, Some False, wrap_module)"
proof -
  have cr: "putimer_create_local False PUTIMER_TYPE_SINGLESHOT (Some 0) 100 0 False init_module =
     Inr (1, one_timer_module)"
    using putimer_create_init [of False] by (simp add: putimer_create_def)
  have st: "stale_handle 1 (churn_module 1)"
    by (simp add: stale_handle_def hnd_1 churn_module_def zero_tmr_def)
  have ns: "\<not> stale_handle 1 wrap_module"
    by (simp add: stale_handle_def hnd_1 wrap_module_def max_resources_128)
  have ia: "putimer_is_active False 1 wrap_module = Inr (0, Some False, wrap_module)"
    by (simp add: putimer_is_active_def hnd_1 max_resources_128)
       (simp add: wrap_module_def zero_tmr_def)
  have c1: "creations False [Create PUTIMER_TYPE_SINGLESHOT (Some 0) 100 0 False] (churn_module 65535) = 1"
    by (simp add: churn_create hnd_nonzero rolled_tag_nonzero)
  have r: "run False (churn 65534 1) (churn_module 1) = Inr (churn_module 65535)"
    using churn_run [of False 65534 1] unfolding rolled_wrap .
  have cn: "creations False wrap_calls (churn_module 1) = 65535"
    unfolding wrap_calls_def creations_append [OF r] churn_creations c1 by simp
  show ?thesis
    using cr delete_one_timer [of False] st wrap_run [of False] cn ns ia by (intro conjI)
qed

section \<open>The queue invariant and the waiter\<close>













lemma same_alloc_tag: "same_alloc s s' \<Longrightarrow> usTag (pTimerList s' x) = usTag (pTimerList s x)"
  by (simp add: same_alloc_def)









end
